theory Spec2Isabelle
  imports Main "HOL-Library.Multiset"
begin

section \<open>The minefield engine of \<^verbatim>\<open>game.py\<close>\<close>

text \<open>
  The game keeps one module-level dictionary \<^verbatim>\<open>state\<close>; every function of the engine
  reads and mutates it. Here the dictionary is a record that each operation takes and
  returns. A Python exception is the left summand of the result. Tiles are the strings of
  the source: \<^verbatim>\<open>"x"\<close> is a mine, \<^verbatim>\<open>"0"\<close> .. \<^verbatim>\<open>"8"\<close> an adjacency count, \<^verbatim>\<open>" "\<close> a hidden
  and \<^verbatim>\<open>"f"\<close> a flagged cell of the visible grid. A coordinate is the pair \<^verbatim>\<open>(x, y)\<close> of
  Python integers, column first, as in the work list of \<^verbatim>\<open>explore_tile\<close>.
\<close>

subsection \<open>Data\<close>

datatype error = IndexError | ValueError | EOFError

type_synonym tile = string
type_synonym grid = "tile list list"
type_synonym coord = "int \<times> int"

record state =
  running :: bool
  won :: bool
  field :: grid
  visible :: grid
  clicks :: int
  mines :: int

text \<open>
  Modelled from the spec: the button constants of the library \<^verbatim>\<open>sweeperlib\<close>, which is not
  part of the sources. The input dispatcher delivers left clicks and right clicks; any
  other button is neither.
\<close>

datatype mouse_button = MOUSE_LEFT | MOUSE_MIDDLE | MOUSE_RIGHT

subsection \<open>Python lists\<close>

text \<open>
  \<^verbatim>\<open>xs[i]\<close> counts a negative index from the end and raises \<^verbatim>\<open>IndexError\<close> out of range;
  \<^verbatim>\<open>xs[i] = v\<close> likewise.
\<close>

definition py_position :: "nat \<Rightarrow> int \<Rightarrow> nat option" where
  "py_position len i =
     (if 0 \<le> i \<and> i < int len then Some (nat i)
      else if - int len \<le> i \<and> i < 0 then Some (nat (int len + i))
      else None)"

definition py_index :: "'a list \<Rightarrow> int \<Rightarrow> error + 'a" where
  "py_index xs i =
     (case py_position (length xs) i of None \<Rightarrow> Inl IndexError | Some j \<Rightarrow> Inr (xs ! j))"

definition py_store :: "'a list \<Rightarrow> int \<Rightarrow> 'a \<Rightarrow> error + 'a list" where
  "py_store xs i v =
     (case py_position (length xs) i of
        None \<Rightarrow> Inl IndexError
      | Some j \<Rightarrow> Inr (xs[j := v]))"

text \<open>\<^verbatim>\<open>g[y][x]\<close> and \<^verbatim>\<open>g[y][x] = v\<close>. The rows of both grids are separate list objects
  (slices in \<^verbatim>\<open>chunks\<close>, a comprehension for the visible grid), so a store changes one cell.\<close>

definition grid_get :: "grid \<Rightarrow> int \<Rightarrow> int \<Rightarrow> error + tile" where
  "grid_get g x y =
     (case py_index g y of Inl e \<Rightarrow> Inl e | Inr row \<Rightarrow> py_index row x)"

definition grid_set :: "grid \<Rightarrow> int \<Rightarrow> int \<Rightarrow> tile \<Rightarrow> error + grid" where
  "grid_set g x y v =
     (case py_index g y of
        Inl e \<Rightarrow> Inl e
      | Inr row \<Rightarrow>
          (case py_store row x v of
             Inl e \<Rightarrow> Inl e
           | Inr row' \<Rightarrow> py_store g y row'))"

text \<open>A \<^verbatim>\<open>for\<close> loop whose body may raise: the first exception ends the loop.\<close>

fun for_each :: "'a list \<Rightarrow> ('a \<Rightarrow> 's \<Rightarrow> error + 's) \<Rightarrow> 's \<Rightarrow> error + 's" where
  "for_each [] body s = Inr s"
| "for_each (a # as) body s =
     (case body a s of Inl e \<Rightarrow> Inl e | Inr s' \<Rightarrow> for_each as body s')"

text \<open>
  The nested loops \<^verbatim>\<open>for y,row in enumerate(field): for x,tile in enumerate(row)\<close>, as
  the list of the triples \<^verbatim>\<open>(y, x, tile)\<close> in the order the loops visit them. No loop of
  the source changes a tile before it has been read.
\<close>

definition enumerate_tiles :: "grid \<Rightarrow> (nat \<times> nat \<times> tile) list" where
  "enumerate_tiles g =
     concat (map (\<lambda>(y, row). map (\<lambda>(x, tile). (y, x, tile)) (enumerate 0 row))
                 (enumerate 0 g))"

subsection \<open>Field generation\<close>

text \<open>\<^verbatim>\<open>str(n)\<close> of a natural number: its decimal digits.\<close>

definition digit_char :: "nat \<Rightarrow> char" where
  "digit_char d = ''0123456789'' ! d"

fun str :: "nat \<Rightarrow> string" where
  "str n = (if n < 10 then [digit_char n] else str (n div 10) @ [digit_char (n mod 10)])"

declare str.simps [simp del]

text \<open>
  \<^verbatim>\<open>chunks(list_, size)\<close>: the slices \<^verbatim>\<open>list_[i:i + size]\<close> for \<^verbatim>\<open>i\<close> in
  \<^verbatim>\<open>range(0, len(list_), size)\<close>. A step of zero raises \<^verbatim>\<open>ValueError\<close>; with a negative
  step the range from 0 is empty.
\<close>

definition chunks :: "'a list \<Rightarrow> int \<Rightarrow> error + 'a list list" where
  "chunks lst sz =
     (if sz = 0 then Inl ValueError
      else if sz < 0 then Inr []
      else Inr (map (\<lambda>k. take (nat sz) (drop (k * nat sz) lst))
                    [0 ..< (length lst + nat sz - 1) div nat sz]))"

definition count_surrounding_mines :: "int \<Rightarrow> int \<Rightarrow> grid \<Rightarrow> nat" where
  "count_surrounding_mines x y fld =
     fold (\<lambda>d_y mines.
            if 0 \<le> y + d_y \<and> y + d_y < int (length fld) then
              fold (\<lambda>d_x mines.
                     if 0 \<le> x + d_x \<and> x + d_x < int (length (fld ! nat (y + d_y))) then
                       (if fld ! nat (y + d_y) ! nat (x + d_x) = ''x'' then mines + 1
                        else mines)
                     else mines)
                   [-1, 0, 1] mines
            else mines)
          [-1, 0, 1] 0"

text \<open>
  \<^verbatim>\<open>create_field\<close>. The outcome of \<^verbatim>\<open>random.shuffle\<close> is a parameter: the function
  \<open>shuffle\<close> stands for what the shuffle did to the list. The loop overwrites the field
  in place, so each count is taken on the field as the earlier iterations left it.
\<close>

definition create_field ::
  "(tile list \<Rightarrow> tile list) \<Rightarrow> int \<Rightarrow> int \<Rightarrow> int \<Rightarrow> error + (grid \<times> grid)" where
  "create_field shuffle width height n_mines =
     (let tiles = replicate (nat n_mines) ''x'' @
                  replicate (nat (width * height - n_mines)) ''0'';
          tiles = shuffle tiles
      in case chunks tiles width of
           Inl e \<Rightarrow> Inl e
         | Inr field0 \<Rightarrow>
             (case for_each (enumerate_tiles field0)
                     (\<lambda>(y, x, tile) fld.
                        if \<not> tile = ''x''
                        then grid_set fld (int x) (int y)
                               (str (count_surrounding_mines (int x) (int y) fld))
                        else Inr fld)
                     field0 of
                Inl e \<Rightarrow> Inl e
              | Inr fld \<Rightarrow>
                  Inr (fld, replicate (nat height) (replicate (nat width) '' ''))))"

subsection \<open>Flags and counters\<close>

definition toggle_flag :: "state \<Rightarrow> int \<Rightarrow> int \<Rightarrow> error + state" where
  "toggle_flag s x y =
     (case grid_get (visible s) x y of
        Inl e \<Rightarrow> Inl e
      | Inr t \<Rightarrow>
          if t = '' '' then
            (case grid_set (visible s) x y ''f'' of
               Inl e \<Rightarrow> Inl e | Inr v \<Rightarrow> Inr (s\<lparr>visible := v\<rparr>))
          else if t = ''f'' then
            (case grid_set (visible s) x y '' '' of
               Inl e \<Rightarrow> Inl e | Inr v \<Rightarrow> Inr (s\<lparr>visible := v\<rparr>))
          else Inr s)"

text \<open>
  In the four loops over the field the visible grid is read only where the source's
  \<^verbatim>\<open>and\<close> gets to it: \<^verbatim>\<open>not tile == "x" and state["visible"][y][x] in (" ", "f")\<close>
  does not touch the visible grid at a mine.
\<close>

definition count_unexplored_tiles :: "state \<Rightarrow> error + nat" where
  "count_unexplored_tiles s =
     for_each (enumerate_tiles (field s))
       (\<lambda>(y, x, tile) tiles.
          if \<not> tile = ''x'' then
            (case grid_get (visible s) (int x) (int y) of
               Inl e \<Rightarrow> Inl e
             | Inr t \<Rightarrow> Inr (if t = '' '' \<or> t = ''f'' then tiles + 1 else tiles))
          else Inr tiles)
       0"

definition count_unflagged_mines :: "state \<Rightarrow> error + nat" where
  "count_unflagged_mines s =
     for_each (enumerate_tiles (field s))
       (\<lambda>(y, x, tile) mines.
          if tile = ''x'' then
            (case grid_get (visible s) (int x) (int y) of
               Inl e \<Rightarrow> Inl e
             | Inr t \<Rightarrow> Inr (if \<not> t = ''f'' then mines + 1 else mines))
          else Inr mines)
       0"

definition show_unflagged_mines :: "state \<Rightarrow> error + state" where
  "show_unflagged_mines s =
     (case for_each (enumerate_tiles (field s))
             (\<lambda>(y, x, tile) v.
                if tile = ''x'' then
                  (case grid_get v (int x) (int y) of
                     Inl e \<Rightarrow> Inl e
                   | Inr t \<Rightarrow> if \<not> t = ''f'' then grid_set v (int x) (int y) ''x'' else Inr v)
                else Inr v)
             (visible s) of
        Inl e \<Rightarrow> Inl e
      | Inr v \<Rightarrow> Inr (s\<lparr>visible := v\<rparr>))"

definition flag_all_mines :: "state \<Rightarrow> error + state" where
  "flag_all_mines s =
     (case for_each (enumerate_tiles (field s))
             (\<lambda>(y, x, tile) v.
                if tile = ''x'' then grid_set v (int x) (int y) ''f'' else Inr v)
             (visible s) of
        Inl e \<Rightarrow> Inl e
      | Inr v \<Rightarrow> Inr (s\<lparr>visible := v\<rparr>))"

text \<open>
  \<^verbatim>\<open>save_game_data\<close> prints the finished game and appends it to \<^verbatim>\<open>data.json\<close>. It
  writes nothing to \<^verbatim>\<open>state\<close>; what it reads from it, and can raise on, is the first
  row of the field (for the dimensions) and the count of unflagged mines. The file, the
  clock and the output are outside the state.
\<close>

definition save_game_data :: "state \<Rightarrow> error + state" where
  "save_game_data s =
     (case py_index (field s) 0 of
        Inl e \<Rightarrow> Inl e
      | Inr row \<Rightarrow>
          (case count_unflagged_mines s of Inl e \<Rightarrow> Inl e | Inr n \<Rightarrow> Inr s))"

definition lose_game :: "state \<Rightarrow> error + state" where
  "lose_game s =
     (case show_unflagged_mines (s\<lparr>running := False\<rparr>) of
        Inl e \<Rightarrow> Inl e
      | Inr s' \<Rightarrow> save_game_data s')"

definition win_game :: "state \<Rightarrow> error + state" where
  "win_game s =
     (case flag_all_mines (s\<lparr>running := False, won := True\<rparr>) of
        Inl e \<Rightarrow> Inl e
      | Inr s' \<Rightarrow> save_game_data s')"

subsection \<open>The cascade\<close>

definition get_surrounding_tiles :: "state \<Rightarrow> int \<Rightarrow> int \<Rightarrow> coord list" where
  "get_surrounding_tiles s x y =
     fold (\<lambda>d_y tiles.
            if 0 \<le> y + d_y \<and> y + d_y < int (length (field s)) then
              fold (\<lambda>d_x tiles.
                     if 0 \<le> x + d_x \<and> x + d_x < int (length (field s ! nat (y + d_y))) then
                       (if \<not> (d_x = 0 \<and> d_y = 0) then tiles @ [(x + d_x, y + d_y)]
                        else tiles)
                     else tiles)
                   [-1, 0, 1] tiles
            else tiles)
          [-1, 0, 1] []"

text \<open>\<^verbatim>\<open>for tile in tiles: if tile not in to_explore: to_explore.append(tile)\<close>\<close>

definition append_new :: "coord list \<Rightarrow> coord list \<Rightarrow> coord list" where
  "append_new to_explore tiles =
     fold (\<lambda>tile to_explore. if tile \<notin> set to_explore then to_explore @ [tile] else to_explore)
          tiles to_explore"

text \<open>
  One round of the \<^verbatim>\<open>while\<close> loop of \<^verbatim>\<open>explore_tile\<close>, for \<open>index < length to_explore\<close>:
  the state and the work list after it. The tile compared with \<^verbatim>\<open>"x"\<close> and \<^verbatim>\<open>"0"\<close> is
  the one just stored in the visible grid.
\<close>

definition explore_body :: "state \<Rightarrow> coord list \<Rightarrow> nat \<Rightarrow> error + (state \<times> coord list)" where
  "explore_body s to_explore index =
     (let (check_x, check_y) = to_explore ! index in
      case grid_get (field s) check_x check_y of
        Inl e \<Rightarrow> Inl e
      | Inr t \<Rightarrow>
          (case grid_set (visible s) check_x check_y t of
             Inl e \<Rightarrow> Inl e
           | Inr v \<Rightarrow>
               (let s1 = s\<lparr>visible := v\<rparr> in
                if t = ''x'' then
                  (case lose_game s1 of Inl e \<Rightarrow> Inl e | Inr s2 \<Rightarrow> Inr (s2, to_explore))
                else
                  (case count_unexplored_tiles s1 of
                     Inl e \<Rightarrow> Inl e
                   | Inr n \<Rightarrow>
                       if n = 0 then
                         (case win_game s1 of
                            Inl e \<Rightarrow> Inl e | Inr s2 \<Rightarrow> Inr (s2, to_explore))
                       else if t = ''0'' then
                         Inr (s1, append_new to_explore
                                    (get_surrounding_tiles s1 check_x check_y))
                       else Inr (s1, to_explore)))))"

text \<open>
  The \<^verbatim>\<open>while\<close> loop of \<^verbatim>\<open>explore_tile\<close>. It ends when \<^verbatim>\<open>index\<close> reaches the end of
  the work list; the result is the state and the work list at that moment.
\<close>

function explore_loop :: "state \<Rightarrow> coord list \<Rightarrow> nat \<Rightarrow> error + (state \<times> coord list)" where
  "explore_loop s to_explore index =
     (if index < length to_explore then
        (case explore_body s to_explore index of
           Inl e \<Rightarrow> Inl e
         | Inr (s', to_explore') \<Rightarrow> explore_loop s' to_explore' (index + 1))
      else Inr (s, to_explore))"
  by pat_completeness auto

definition explore_tile :: "state \<Rightarrow> int \<Rightarrow> int \<Rightarrow> error + state" where
  "explore_tile s x y =
     (case explore_loop s [(x, y)] 0 of Inl e \<Rightarrow> Inl e | Inr (s', to_explore) \<Rightarrow> Inr s')"

subsection \<open>Input\<close>

text \<open>
  \<^verbatim>\<open>handle_mouse\<close> gets the pixel coordinates of the click. Once the game is over a right
  click closes the window, which leaves the state as it is. The chained comparison reads
  the first row of the field only when \<^verbatim>\<open>0 <= x\<close>.
\<close>

definition handle_mouse :: "state \<Rightarrow> int \<Rightarrow> int \<Rightarrow> mouse_button \<Rightarrow> error + state" where
  "handle_mouse s x y button =
     (if \<not> running s then Inr s
      else
        (let x = x div 40; y = y div 40 in
         case (if 0 \<le> x
               then (case py_index (field s) 0 of
                       Inl e \<Rightarrow> Inl e
                     | Inr row \<Rightarrow>
                         Inr (x < int (length row) \<and> 0 \<le> y \<and> y < int (length (field s))))
               else Inr False) of
           Inl e \<Rightarrow> Inl e
         | Inr inside \<Rightarrow>
             if inside then
               (if button = MOUSE_LEFT then
                  (case grid_get (visible s) x y of
                     Inl e \<Rightarrow> Inl e
                   | Inr t \<Rightarrow>
                       if t = '' '' then explore_tile (s\<lparr>clicks := clicks s + 1\<rparr>) x y
                       else Inr s)
                else if button = MOUSE_RIGHT then toggle_flag s x y
                else Inr s)
             else Inr s))"

text \<open>
  The console input is the list of the lines the player types, each already through
  \<^verbatim>\<open>int(input(...))\<close>: \<open>Some n\<close> for an integer, \<open>None\<close> for a line that raises
  \<^verbatim>\<open>ValueError\<close>. At the end of the input \<^verbatim>\<open>input\<close> raises \<^verbatim>\<open>EOFError\<close>.
\<close>

fun get_positive_integer :: "int option list \<Rightarrow> error + (int \<times> int option list)" where
  "get_positive_integer [] = Inl EOFError"
| "get_positive_integer (None # inputs) = get_positive_integer inputs"
| "get_positive_integer (Some number # inputs) =
     (if number > 0 then Inr (number, inputs) else get_positive_integer inputs)"

text \<open>The \<^verbatim>\<open>while True\<close> loop of \<^verbatim>\<open>init_game\<close> that asks for the mine count.\<close>

function read_mine_count ::
  "int \<Rightarrow> int \<Rightarrow> int option list \<Rightarrow> error + (int \<times> int option list)" where
  "read_mine_count width height inputs =
     (case get_positive_integer inputs of
        Inl e \<Rightarrow> Inl e
      | Inr (n_mines, inputs') \<Rightarrow>
          if n_mines < 1 \<or> n_mines > width * height
          then read_mine_count width height inputs'
          else Inr (n_mines, inputs'))"
  by pat_completeness auto

text \<open>\<^verbatim>\<open>init_game\<close> up to the call of \<^verbatim>\<open>play\<close>, which opens the window.\<close>

definition init_game :: "(tile list \<Rightarrow> tile list) \<Rightarrow> int option list \<Rightarrow> error + state" where
  "init_game shuffle inputs =
     (case get_positive_integer inputs of
        Inl e \<Rightarrow> Inl e
      | Inr (width, inputs1) \<Rightarrow>
          (case get_positive_integer inputs1 of
             Inl e \<Rightarrow> Inl e
           | Inr (height, inputs2) \<Rightarrow>
               (case read_mine_count width height inputs2 of
                  Inl e \<Rightarrow> Inl e
                | Inr (n_mines, inputs3) \<Rightarrow>
                    (case create_field shuffle width height n_mines of
                       Inl e \<Rightarrow> Inl e
                     | Inr (fld, vis) \<Rightarrow>
                         Inr \<lparr>running = True, won = False, field = fld, visible = vis,
                              clicks = 0, mines = n_mines\<rparr>))))"

text \<open>
  The sessions the program can be in: the one \<^verbatim>\<open>init_game\<close> starts, for any input and
  any shuffle that permutes its list, and the ones mouse events lead to from there.
\<close>

inductive reachable :: "state \<Rightarrow> bool" where
  start: "\<lbrakk>\<And>tiles. mset (shuffle tiles) = mset tiles; init_game shuffle inputs = Inr s\<rbrakk>
          \<Longrightarrow> reachable s"
| mouse: "\<lbrakk>reachable s; handle_mouse s x y button = Inr s'\<rbrakk> \<Longrightarrow> reachable s'"

text \<open>The sessions that mouse events lead to from a given one.\<close>

inductive leads_to :: "state \<Rightarrow> state \<Rightarrow> bool" where
  here: "leads_to s s"
| mouse: "\<lbrakk>leads_to s s'; handle_mouse s' x y button = Inr s''\<rbrakk> \<Longrightarrow> leads_to s s''"

section \<open>What the claims speak of\<close>

text \<open>The cells of a grid, row by row, and the tile at a cell.\<close>

definition all_cells :: "grid \<Rightarrow> coord list" where
  "all_cells g =
     concat (map (\<lambda>y. map (\<lambda>x. (int x, int y)) [0 ..< length (g ! y)]) [0 ..< length g])"

definition in_grid :: "grid \<Rightarrow> coord \<Rightarrow> bool" where
  "in_grid g c =
     (0 \<le> snd c \<and> snd c < int (length g) \<and> 0 \<le> fst c \<and>
      fst c < int (length (g ! nat (snd c))))"

definition tile_at :: "grid \<Rightarrow> coord \<Rightarrow> tile" where
  "tile_at g c = g ! nat (snd c) ! nat (fst c)"

text \<open>Two cells are neighbours when they differ and are at most one step apart in each
  direction: the Moore neighbourhood, with no wraparound.\<close>

definition adjacent :: "coord \<Rightarrow> coord \<Rightarrow> bool" where
  "adjacent c c' = (c' \<noteq> c \<and> \<bar>fst c' - fst c\<bar> \<le> 1 \<and> \<bar>snd c' - snd c\<bar> \<le> 1)"

text \<open>The number of mines around a cell, by brute force over the cells of the grid.\<close>

definition neighbour_mines :: "grid \<Rightarrow> coord \<Rightarrow> nat" where
  "neighbour_mines g c =
     length (filter (\<lambda>c'. adjacent c c' \<and> tile_at g c' = ''x'') (all_cells g))"

subsection \<open>Sample data\<close>

text \<open>A shuffle that leaves the list as it is, and the session that \<^verbatim>\<open>init_game\<close> starts
  on a three by three field when the shuffle reverses the list (the mine ends bottom
  right).\<close>

definition keep_order :: "tile list \<Rightarrow> tile list" where
  "keep_order tiles = tiles"

definition session0 :: state where
  "session0 = \<lparr>running = True, won = False,
      field = [[''0'', ''0'', ''0''], [''0'', ''1'', ''1''], [''0'', ''1'', ''x'']],
      visible = [['' '', '' '', '' ''], ['' '', '' '', '' ''], ['' '', '' '', '' '']],
      clicks = 0, mines = 1\<rparr>"

text \<open>The session of one cell, a mine, before and after the click on it; the
  session of a row of four with a flag on the second cell; and the three by three session
  with a flag on its mine.\<close>

definition mine_only :: state where
  "mine_only = \<lparr>running = True, won = False, field = [[''x'']], visible = [['' '']],
      clicks = 0, mines = 1\<rparr>"

definition mine_only_lost :: state where
  "mine_only_lost = \<lparr>running = False, won = False, field = [[''x'']], visible = [[''x'']],
      clicks = 1, mines = 1\<rparr>"

definition row_flagged :: state where
  "row_flagged = \<lparr>running = True, won = False, field = [[''0'', ''0'', ''1'', ''x'']],
      visible = [['' '', ''f'', '' '', '' '']], clicks = 0, mines = 1\<rparr>"

text \<open>The row of four as \<^verbatim>\<open>init_game\<close> starts it, and after the click on its first cell
  with the second one flagged.\<close>

definition row_start :: state where
  "row_start = \<lparr>running = True, won = False, field = [[''0'', ''0'', ''1'', ''x'']],
      visible = [['' '', '' '', '' '', '' '']], clicks = 0, mines = 1\<rparr>"

definition row_won :: state where
  "row_won = \<lparr>running = False, won = True, field = [[''0'', ''0'', ''1'', ''x'']],
      visible = [[''0'', ''0'', ''1'', ''f'']], clicks = 1, mines = 1\<rparr>"

definition session0_flagged :: state where
  "session0_flagged =
     session0\<lparr>visible := [['' '', '' '', '' ''], ['' '', '' '', '' ''], ['' '', '' '', ''f'']]\<rparr>"

text \<open>The three by three session after a left click on its middle cell, and after a
  second left click on its top left cell, which wins.\<close>

definition session1 :: state where
  "session1 =
     session0\<lparr>visible := [['' '', '' '', '' ''], ['' '', ''1'', '' ''], ['' '', '' '', '' '']],
              clicks := 1\<rparr>"

definition session2 :: state where
  "session2 =
     \<lparr>running = False, won = True, field = field session0,
      visible = [[''0'', ''0'', ''0''], [''0'', ''1'', ''1''], [''0'', ''1'', ''f'']],
      clicks = 2, mines = 1\<rparr>"

text \<open>A grid with one cell overwritten, for cells inside the grid.\<close>

definition put :: "grid \<Rightarrow> coord \<Rightarrow> tile \<Rightarrow> grid" where
  "put g c v = g[nat (snd c) := (g ! nat (snd c))[nat (fst c) := v]]"

text \<open>The visible grid has the rows of the field, and a cell that still counts as
  unexplored: not a mine, and hidden or flagged.\<close>

definition same_shape :: "state \<Rightarrow> bool" where
  "same_shape s = (map length (visible s) = map length (field s))"

definition unexplored :: "state \<Rightarrow> coord \<Rightarrow> bool" where
  "unexplored s c =
     (tile_at (field s) c \<noteq> ''x'' \<and>
      (tile_at (visible s) c = '' '' \<or> tile_at (visible s) c = ''f''))"

text \<open>Every cell that is not a mine is revealed.\<close>

definition all_clear :: "state \<Rightarrow> bool" where
  "all_clear s = (\<forall>c \<in> set (all_cells (field s)). \<not> unexplored s c)"

text \<open>
  A field as \<^verbatim>\<open>create_field\<close> makes them: at least one row, all rows as long as the first,
  and every cell a mine or the decimal count of the mines around it.
\<close>

definition field_ok :: "grid \<Rightarrow> bool" where
  "field_ok g =
     (g \<noteq> [] \<and> (\<forall>row \<in> set g. length row = length (g ! 0)) \<and>
      (\<forall>c \<in> set (all_cells g). tile_at g c = ''x'' \<or> tile_at g c = str (neighbour_mines g c)))"

text \<open>Each visible cell is hidden, flagged, or shows the tile of the field.\<close>

definition consistent :: "state \<Rightarrow> bool" where
  "consistent s =
     (\<forall>c \<in> set (all_cells (field s)).
        tile_at (visible s) c = '' '' \<or> tile_at (visible s) c = ''f'' \<or>
        tile_at (visible s) c = tile_at (field s) c)"

text \<open>What holds of every session of the game: while it runs it is not won and shows no
  mine.\<close>

definition session_ok :: "state \<Rightarrow> bool" where
  "session_ok s =
     (field_ok (field s) \<and> same_shape s \<and> consistent s \<and>
      (running s \<longrightarrow>
         \<not> won s \<and>
         (\<forall>c \<in> set (all_cells (field s)).
            tile_at (field s) c = ''x'' \<longrightarrow> tile_at (visible s) c \<noteq> ''x'')))"

text \<open>
  The connected zero-adjacency region of a cell: the cells with tile \<^verbatim>\<open>"0"\<close> that a path of
  neighbouring \<^verbatim>\<open>"0"\<close> cells joins to it. Its border: the numbered cells next to a cell
  of the region.
\<close>

inductive_set zero_region :: "grid \<Rightarrow> coord \<Rightarrow> coord set" for g :: grid and seed :: coord where
  seed: "\<lbrakk>in_grid g seed; tile_at g seed = ''0''\<rbrakk> \<Longrightarrow> seed \<in> zero_region g seed"
| step: "\<lbrakk>c \<in> zero_region g seed; in_grid g c'; adjacent c c'; tile_at g c' = ''0''\<rbrakk>
         \<Longrightarrow> c' \<in> zero_region g seed"

definition region_border :: "grid \<Rightarrow> coord \<Rightarrow> coord set" where
  "region_border g seed =
     {c'. in_grid g c' \<and> tile_at g c' \<noteq> ''0'' \<and> tile_at g c' \<noteq> ''x'' \<and>
          (\<exists>c \<in> zero_region g seed. adjacent c c')}"

text \<open>The cells a cascade from \<open>seed\<close> gets to: the seed, and the neighbours of every
  \<^verbatim>\<open>"0"\<close> cell it gets to.\<close>

inductive_set reach :: "grid \<Rightarrow> coord \<Rightarrow> coord set" for g :: grid and seed :: coord where
  seed: "in_grid g seed \<Longrightarrow> seed \<in> reach g seed"
| step: "\<lbrakk>c \<in> reach g seed; tile_at g c = ''0''; in_grid g c'; adjacent c c'\<rbrakk>
         \<Longrightarrow> c' \<in> reach g seed"

text \<open>
  The cascade from a seed that is not a mine, between two rounds of its loop: the work
  list holds cells the cascade gets to, each once; the cells before \<open>index\<close> are revealed;
  the neighbours of every \<^verbatim>\<open>"0"\<close> cell before \<open>index\<close> are in the list, unless every cell
  is clear already; and the game is won exactly when a round has found every cell clear.
\<close>

definition cascade_inv :: "coord \<Rightarrow> state \<Rightarrow> coord list \<Rightarrow> nat \<Rightarrow> bool" where
  "cascade_inv seed s te i =
     (field_ok (field s) \<and> same_shape s \<and> consistent s \<and>
      tile_at (field s) seed \<noteq> ''x'' \<and>
      i \<le> length te \<and> seed \<in> set te \<and> distinct te \<and> set te \<subseteq> reach (field s) seed \<and>
      (\<forall>c \<in> set (take i te). tile_at (visible s) c = tile_at (field s) c) \<and>
      ((\<forall>c \<in> set (take i te). tile_at (field s) c = ''0'' \<longrightarrow>
          (\<forall>c'. in_grid (field s) c' \<and> adjacent c c' \<longrightarrow> c' \<in> set te)) \<or> all_clear s) \<and>
      (won s \<longrightarrow>
         \<not> running s \<and> all_clear s \<and>
         (\<forall>c \<in> set (all_cells (field s)).
            tile_at (field s) c = ''x'' \<longrightarrow> tile_at (visible s) c = ''f'')) \<and>
      (if i = 0 then \<not> won s else (all_clear s \<longrightarrow> won s)))"

text \<open>What rounds of that cascade change: a mine only by the flag of a win, another cell
  only if the cascade gets to it.\<close>

definition cascade_rel :: "coord \<Rightarrow> state \<Rightarrow> state \<Rightarrow> bool" where
  "cascade_rel seed s s' =
     (field s' = field s \<and> clicks s' = clicks s \<and> mines s' = mines s \<and>
      (won s \<longrightarrow> won s') \<and> (\<not> won s' \<longrightarrow> running s' = running s) \<and>
      (\<forall>c \<in> set (all_cells (field s)).
         if tile_at (field s) c = ''x''
         then tile_at (visible s') c = tile_at (visible s) c \<or>
              (won s' \<and> tile_at (visible s') c = ''f'')
         else c \<notin> reach (field s) seed \<longrightarrow>
              tile_at (visible s') c = tile_at (visible s) c))"

text \<open>The nine cells that \<^verbatim>\<open>count_surrounding_mines\<close> looks at, in its order.\<close>

definition around :: "int \<Rightarrow> int \<Rightarrow> coord list" where
  "around x y = concat (map (\<lambda>d_y. map (\<lambda>d_x. (x + d_x, y + d_y)) [-1, 0, 1]) [-1, 0, 1])"

section \<open>Basic facts\<close>

subsection \<open>Cells and neighbours\<close>

lemma in_all_cells_iff:
  "c \<in> set (all_cells g) \<longleftrightarrow> (\<exists>y < length g. \<exists>x < length (g ! y). c = (int x, int y))"
  unfolding all_cells_def by (fastforce simp: image_iff)

lemma set_all_cells: "set (all_cells g) = {c. in_grid g c}"
proof (rule set_eqI)
  fix c :: coord
  obtain a b where c: "c = (a, b)" by (cases c)
  show "c \<in> set (all_cells g) \<longleftrightarrow> c \<in> {c. in_grid g c}"
  proof
    assume "c \<in> set (all_cells g)"
    then obtain y x where "y < length g" "x < length (g ! y)" "a = int x" "b = int y"
      unfolding in_all_cells_iff c by auto
    then show "c \<in> {c. in_grid g c}" by (simp add: in_grid_def c)
  next
    assume "c \<in> {c. in_grid g c}"
    then have h: "0 \<le> b" "nat b < length g" "0 \<le> a" "nat a < length (g ! nat b)"
      by (auto simp: in_grid_def c)
    then have "c = (int (nat a), int (nat b))" by (simp add: c)
    with h show "c \<in> set (all_cells g)" unfolding in_all_cells_iff by blast
  qed
qed

lemma inner_tiles_fold:
  "fold (\<lambda>d tiles. if P d then (if Q d then tiles @ [f d] else tiles) else tiles) ds tiles =
   tiles @ concat (map (\<lambda>d. if P d \<and> Q d then [f d] else []) ds)"
  by (induction ds arbitrary: tiles) auto

lemma outer_tiles_fold:
  "fold (\<lambda>d tiles. if P d then tiles @ g d else tiles) ds tiles =
   tiles @ concat (map (\<lambda>d. if P d then g d else []) ds)"
  by (induction ds arbitrary: tiles) auto

lemma get_surrounding_tiles_eq:
  "get_surrounding_tiles s x y =
     concat (map (\<lambda>d_y. if 0 \<le> y + d_y \<and> y + d_y < int (length (field s)) then
                 concat (map (\<lambda>d_x. if (0 \<le> x + d_x \<and> x + d_x < int (length (field s ! nat (y + d_y)))) \<and> \<not> (d_x = 0 \<and> d_y = 0)
                        then [(x + d_x, y + d_y)] else []) [-1, 0, 1]) else []) [-1, 0, 1])"
  unfolding get_surrounding_tiles_def inner_tiles_fold outer_tiles_fold by simp

lemma in_concat_map_if:
  "c \<in> set (concat (map (\<lambda>d. if P d then f d else []) ds)) \<longleftrightarrow>
   (\<exists>d \<in> set ds. P d \<and> c \<in> set (f d))"
  by (induction ds) auto

lemma abs_le_one_iff: "\<bar>d :: int\<bar> \<le> 1 \<longleftrightarrow> d = -1 \<or> d = 0 \<or> d = 1"
  by arith

lemma set_get_surrounding_tiles:
  "set (get_surrounding_tiles s x y) =
     {c. in_grid (field s) c \<and> c \<noteq> (x, y) \<and> \<bar>fst c - x\<bar> \<le> 1 \<and> \<bar>snd c - y\<bar> \<le> 1}"
  (is "?L = ?R")
proof (rule set_eqI)
  fix c :: coord
  obtain a b where c: "c = (a, b)" by (cases c)
  have "c \<in> ?L \<longleftrightarrow>
    (\<exists>d_y \<in> {-1, 0, 1}. 0 \<le> y + d_y \<and> y + d_y < int (length (field s)) \<and>
      (\<exists>d_x \<in> {-1, 0, 1}. 0 \<le> x + d_x \<and> x + d_x < int (length (field s ! nat (y + d_y))) \<and>
         \<not> (d_x = 0 \<and> d_y = 0) \<and> a = x + d_x \<and> b = y + d_y))"
    unfolding get_surrounding_tiles_eq c in_concat_map_if by auto
  also have "\<dots> \<longleftrightarrow> c \<in> ?R"
  proof
    assume "\<exists>d_y \<in> {-1, 0, 1}. 0 \<le> y + d_y \<and> y + d_y < int (length (field s)) \<and>
      (\<exists>d_x \<in> {-1, 0, 1}. 0 \<le> x + d_x \<and> x + d_x < int (length (field s ! nat (y + d_y))) \<and>
         \<not> (d_x = 0 \<and> d_y = 0) \<and> a = x + d_x \<and> b = y + d_y)"
    then obtain d_y d_x where h: "d_y \<in> {-1, 0, 1}" "d_x \<in> {-1, 0, 1}"
      "0 \<le> y + d_y" "y + d_y < int (length (field s))"
      "0 \<le> x + d_x" "x + d_x < int (length (field s ! nat (y + d_y)))"
      "\<not> (d_x = 0 \<and> d_y = 0)" "a = x + d_x" "b = y + d_y" by blast
    then have "\<bar>a - x\<bar> \<le> 1" "\<bar>b - y\<bar> \<le> 1" "(a, b) \<noteq> (x, y)" by auto
    with h show "c \<in> ?R" by (simp add: in_grid_def c)
  next
    assume r: "c \<in> ?R"
    then have d: "b - y \<in> {-1, 0, 1}" "a - x \<in> {-1, 0, 1}"
      using abs_le_one_iff [of "a - x"] abs_le_one_iff [of "b - y"] by (auto simp: c)
    from r have "0 \<le> y + (b - y)" "y + (b - y) < int (length (field s))"
      "0 \<le> x + (a - x)" "x + (a - x) < int (length (field s ! nat (y + (b - y))))"
      "\<not> (a - x = 0 \<and> b - y = 0)" "a = x + (a - x)" "b = y + (b - y)"
      by (auto simp: in_grid_def c)
    with d show "\<exists>d_y \<in> {-1, 0, 1}. 0 \<le> y + d_y \<and> y + d_y < int (length (field s)) \<and>
      (\<exists>d_x \<in> {-1, 0, 1}. 0 \<le> x + d_x \<and> x + d_x < int (length (field s ! nat (y + d_y))) \<and>
         \<not> (d_x = 0 \<and> d_y = 0) \<and> a = x + d_x \<and> b = y + d_y)"
      by blast
  qed
  finally show "c \<in> ?L \<longleftrightarrow> c \<in> ?R" .
qed

subsection \<open>The work list\<close>

lemma set_append_new: "set (append_new te tiles) = set te \<union> set tiles"
  unfolding append_new_def by (induction tiles arbitrary: te) auto

lemma distinct_append_new: "distinct te \<Longrightarrow> distinct (append_new te tiles)"
  unfolding append_new_def by (induction tiles arbitrary: te) auto

lemma append_new_measure:
  "finite C \<Longrightarrow> set tiles \<subseteq> C \<Longrightarrow>
   card (C - set (append_new te tiles)) + length (append_new te tiles) =
   card (C - set te) + length te"
  unfolding append_new_def
proof (induction tiles arbitrary: te)
  case Nil
  then show ?case by simp
next
  case (Cons t tiles)
  show ?case
  proof (cases "t \<in> set te")
    case True
    with Cons show ?thesis by simp
  next
    case False
    from Cons.prems have t: "t \<in> C - set te" using False by simp
    have fin: "finite (C - set te)" using Cons.prems by simp
    have "C - set (te @ [t]) = (C - set te) - {t}" by auto
    then have "card (C - set (te @ [t])) = card (C - set te) - 1"
      using t fin by simp
    moreover have "card (C - set te) \<ge> 1"
      using t fin by (metis One_nat_def Suc_leI card_gt_0_iff empty_iff)
    ultimately have "card (C - set (te @ [t])) + length (te @ [t]) = card (C - set te) + length te"
      by simp
    with Cons.IH [of "te @ [t]"] Cons.prems False show ?thesis by simp
  qed
qed

lemma take_append_new: "i \<le> length te \<Longrightarrow> take i (append_new te tiles) = take i te"
  unfolding append_new_def by (induction tiles arbitrary: te) auto


subsection \<open>What an operation leaves alone\<close>

lemma show_unflagged_mines_frame:
  "show_unflagged_mines s = Inr s' \<Longrightarrow> \<exists>v. s' = s\<lparr>visible := v\<rparr>"
  unfolding show_unflagged_mines_def by (auto split: sum.splits)

lemma flag_all_mines_frame:
  "flag_all_mines s = Inr s' \<Longrightarrow> \<exists>v. s' = s\<lparr>visible := v\<rparr>"
  unfolding flag_all_mines_def by (auto split: sum.splits)

lemma save_game_data_frame: "save_game_data s = Inr s' \<Longrightarrow> s' = s"
  unfolding save_game_data_def by (auto split: sum.splits)

lemma lose_game_frame:
  "lose_game s = Inr s' \<Longrightarrow> \<exists>v. s' = s\<lparr>running := False, visible := v\<rparr>"
  unfolding lose_game_def
  by (auto split: sum.splits dest!: show_unflagged_mines_frame save_game_data_frame)

lemma win_game_frame:
  "win_game s = Inr s' \<Longrightarrow> \<exists>v. s' = s\<lparr>running := False, won := True, visible := v\<rparr>"
  unfolding win_game_def
  by (auto split: sum.splits dest!: flag_all_mines_frame save_game_data_frame)

lemma get_surrounding_tiles_cong:
  "field s' = field s \<Longrightarrow> get_surrounding_tiles s' x y = get_surrounding_tiles s x y"
  by (simp only: get_surrounding_tiles_def)

lemma get_surrounding_tiles_visible:
  "get_surrounding_tiles (s\<lparr>visible := v\<rparr>) x y = get_surrounding_tiles s x y"
  by (rule get_surrounding_tiles_cong) simp

lemma explore_body_unfold:
  assumes "te ! i = (cx, cy)" and "grid_get (field s) cx cy = Inr t"
    and "grid_set (visible s) cx cy t = Inr v"
  shows "explore_body s te i =
     (if t = ''x'' then
        (case lose_game (s\<lparr>visible := v\<rparr>) of Inl e \<Rightarrow> Inl e | Inr s2 \<Rightarrow> Inr (s2, te))
      else
        (case count_unexplored_tiles (s\<lparr>visible := v\<rparr>) of
           Inl e \<Rightarrow> Inl e
         | Inr n \<Rightarrow>
             if n = 0 then
               (case win_game (s\<lparr>visible := v\<rparr>) of Inl e \<Rightarrow> Inl e | Inr s2 \<Rightarrow> Inr (s2, te))
             else if t = ''0'' then
               Inr (s\<lparr>visible := v\<rparr>, append_new te (get_surrounding_tiles s cx cy))
             else Inr (s\<lparr>visible := v\<rparr>, te)))"
  by (simp only: explore_body_def assms Let_def prod.case sum.case
        get_surrounding_tiles_visible)

lemma explore_body_reads:
  assumes "explore_body s te i = Inr r" and "te ! i = (cx, cy)"
  obtains t v where "grid_get (field s) cx cy = Inr t"
    and "grid_set (visible s) cx cy t = Inr v"
proof (cases "grid_get (field s) cx cy")
  case (Inl e)
  with assms show ?thesis by (simp add: explore_body_def)
next
  case (Inr t)
  show ?thesis
  proof (cases "grid_set (visible s) cx cy t")
    case (Inl e)
    with assms Inr show ?thesis by (simp add: explore_body_def)
  next
    case v: (Inr v)
    with Inr that show ?thesis by blast
  qed
qed

lemma explore_body_frame:
  assumes "explore_body s te i = Inr (s', te')"
  shows "field s' = field s \<and> clicks s' = clicks s \<and> mines s' = mines s \<and>
         (te' = te \<or> te' = append_new te (get_surrounding_tiles s (fst (te ! i)) (snd (te ! i))))"
proof -
  obtain cx cy where c: "te ! i = (cx, cy)" by (cases "te ! i")
  from explore_body_reads [OF assms c] obtain t v
    where g: "grid_get (field s) cx cy = Inr t" and w: "grid_set (visible s) cx cy t = Inr v"
    by blast
  note u = assms [unfolded explore_body_unfold [OF c g w]]
  show ?thesis
  proof (cases "t = ''x''")
    case True
    with u obtain s2 where "lose_game (s\<lparr>visible := v\<rparr>) = Inr s2" "s' = s2" "te' = te"
      by (auto split: sum.splits)
    with lose_game_frame [of "s\<lparr>visible := v\<rparr>" s2] show ?thesis by auto
  next
    case False
    with u obtain n where n: "count_unexplored_tiles (s\<lparr>visible := v\<rparr>) = Inr n"
      by (cases "count_unexplored_tiles (s\<lparr>visible := v\<rparr>)") auto
    show ?thesis
    proof (cases "n = 0")
      case True
      with u False n obtain s2 where "win_game (s\<lparr>visible := v\<rparr>) = Inr s2" "s' = s2" "te' = te"
        by (auto split: sum.splits)
      with win_game_frame [of "s\<lparr>visible := v\<rparr>" s2] show ?thesis by auto
    next
      case n0: False
      with u False n show ?thesis by (auto simp: c split: if_splits)
    qed
  qed
qed

subsection \<open>The loops end\<close>

text \<open>
  Each round of the cascade moves \<open>index\<close> one step on, and what it appends to the work
  list are cells of the field that were not in it: the number of cells outside the list
  plus the distance of \<open>index\<close> from the end of the list goes down.
\<close>

lemma get_surrounding_tiles_subset:
  "set (get_surrounding_tiles s x y) \<subseteq> set (all_cells (field s))"
  unfolding set_get_surrounding_tiles set_all_cells by auto

lemma explore_body_measure:
  assumes "explore_body s te i = Inr (s', te')"
  shows "card (set (all_cells (field s')) - set te') + length te' =
         card (set (all_cells (field s)) - set te) + length te"
proof -
  from explore_body_frame [OF assms]
  have f: "field s' = field s"
    and t: "te' = te \<or> te' = append_new te (get_surrounding_tiles s (fst (te ! i)) (snd (te ! i)))"
    by auto
  from t show ?thesis
  proof
    assume "te' = te" with f show ?thesis by simp
  next
    assume "te' = append_new te (get_surrounding_tiles s (fst (te ! i)) (snd (te ! i)))"
    with f show ?thesis
      using append_new_measure [OF _ get_surrounding_tiles_subset, of s te] by simp
  qed
qed

lemma length_append_new: "length te \<le> length (append_new te tiles)"
  unfolding append_new_def
proof (induction tiles arbitrary: te)
  case Nil
  show ?case by simp
next
  case (Cons t tiles)
  from Cons [of te] Cons [of "te @ [t]"] show ?case by auto
qed

lemma explore_body_length:
  assumes "explore_body s te i = Inr (s', te')"
  shows "length te \<le> length te'"
  using explore_body_frame [OF assms] length_append_new by auto

termination explore_loop
proof (relation "measure (\<lambda>(s, te, i). card (set (all_cells (field s)) - set te) + length te - i)")
  show "wf (measure (\<lambda>(s, te, i). card (set (all_cells (field s)) - set te) + length te - i))"
    by simp
next
  fix s :: state and to_explore :: "coord list" and index :: nat and x2 x y
  assume i: "index < length to_explore"
    and b: "explore_body s to_explore index = Inr x2" and x: "(x, y) = x2"
  from b x have b': "explore_body s to_explore index = Inr (x, y)" by simp
  from explore_body_measure [OF b'] explore_body_length [OF b'] i
  show "((x, y, index + 1), s, to_explore, index)
        \<in> measure (\<lambda>(s, te, i). card (set (all_cells (field s)) - set te) + length te - i)"
    by simp
qed

lemma get_positive_integer_shorter:
  "get_positive_integer inputs = Inr (n, rest) \<Longrightarrow> length rest < length inputs \<and> 0 < n"
  by (induction inputs rule: get_positive_integer.induct) (auto split: if_splits)

termination read_mine_count
  by (relation "measure (\<lambda>(w, h, inputs). length inputs)")
     (auto dest: get_positive_integer_shorter)

section \<open>Configurations\<close>

lemma read_mine_count_range:
  "read_mine_count width height inputs = Inr (n, rest) \<Longrightarrow> 1 \<le> n \<and> n \<le> width * height"
proof (induction width height inputs rule: read_mine_count.induct)
  case (1 width height inputs)
  from "1.prems" obtain m inputs' where g: "get_positive_integer inputs = Inr (m, inputs')"
    by (subst (asm) read_mine_count.simps) (auto split: sum.splits)
  show ?case
  proof (cases "m < 1 \<or> m > width * height")
    case True
    with "1.prems" g have "read_mine_count width height inputs' = Inr (n, rest)"
      by (subst (asm) read_mine_count.simps) auto
    with "1.IH" [OF g refl True] show ?thesis by simp
  next
    case False
    with "1.prems" g have "n = m"
      by (subst (asm) read_mine_count.simps) auto
    with False show ?thesis by auto
  qed
qed

lemma init_game_unfold:
  assumes "get_positive_integer inputs = Inr (width, i1)"
    and "get_positive_integer i1 = Inr (height, i2)"
    and "read_mine_count width height i2 = Inr (n, i3)"
  shows "init_game shuffle inputs =
           (case create_field shuffle width height n of
              Inl e \<Rightarrow> Inl e
            | Inr (fld, vis) \<Rightarrow>
                Inr \<lparr>running = True, won = False, field = fld, visible = vis,
                     clicks = 0, mines = n\<rparr>)"
  by (simp only: init_game_def assms sum.case prod.case)

text \<open>
  Claim C6 says that field generation fails with \<^verbatim>\<open>InvalidConfiguration\<close> on a bad
  configuration, and in particular for width 5, height 1 and 6 mines. \<^verbatim>\<open>create_field\<close>
  checks nothing: for these arguments it returns a field of two rows, five mines and one
  mine, and a visible grid of one row.
\<close>

theorem create_field_unchecked:
  "create_field keep_order 5 1 6 =
     Inr ([[''x'', ''x'', ''x'', ''x'', ''x''], [''x'']], [['' '', '' '', '' '', '' '', '' '']])"
  by code_simp

text \<open>What \<^verbatim>\<open>init_game\<close> has read and made when it returns a session.\<close>

lemma init_game_start:
  assumes "init_game shuffle inputs = Inr s"
  shows "\<exists>width height. 0 < width \<and> 0 < height \<and> 1 \<le> mines s \<and> mines s \<le> width * height \<and>
           running s \<and> \<not> won s \<and> clicks s = 0 \<and>
           create_field shuffle width height (mines s) = Inr (field s, visible s)"
proof -
  obtain width i1 where w: "get_positive_integer inputs = Inr (width, i1)"
  proof (cases "get_positive_integer inputs")
    case (Inl e)
    with assms show ?thesis by (simp add: init_game_def)
  next
    case (Inr r)
    with that show ?thesis by (cases r) blast
  qed
  obtain height i2 where h: "get_positive_integer i1 = Inr (height, i2)"
  proof (cases "get_positive_integer i1")
    case (Inl e)
    with assms w show ?thesis by (simp add: init_game_def)
  next
    case (Inr r)
    with that show ?thesis by (cases r) blast
  qed
  obtain n i3 where m: "read_mine_count width height i2 = Inr (n, i3)"
  proof (cases "read_mine_count width height i2")
    case (Inl e)
    with assms w h show ?thesis by (simp add: init_game_def)
  next
    case (Inr r)
    with that show ?thesis by (cases r) blast
  qed
  note u = assms [unfolded init_game_unfold [OF w h m]]
  obtain fld vis where c: "create_field shuffle width height n = Inr (fld, vis)"
  proof (cases "create_field shuffle width height n")
    case (Inl e)
    with u show ?thesis by simp
  next
    case (Inr r)
    with that show ?thesis by (cases r) blast
  qed
  from u c have s: "s = \<lparr>running = True, won = False, field = fld, visible = vis,
                          clicks = 0, mines = n\<rparr>"
    by simp
  have "0 < width" "0 < height"
    using get_positive_integer_shorter [OF w] get_positive_integer_shorter [OF h] by simp_all
  moreover have "1 \<le> n" "n \<le> width * height"
    using read_mine_count_range [OF m] by simp_all
  ultimately show ?thesis using c unfolding s by (intro exI [of _ width] exI [of _ height]) simp
qed

text \<open>
  C6, as the code has it: the check is in \<^verbatim>\<open>init_game\<close>, which asks again until the width
  and the height are positive and the mine count lies between 1 and their product. Whenever
  \<^verbatim>\<open>init_game\<close> starts a session, the field and the visible grid are what \<^verbatim>\<open>create_field\<close>
  returned for such a configuration, and the session is running, not won, with no clicks.
\<close>

theorem init_game_valid_configuration:
  assumes "init_game shuffle inputs = Inr s"
  shows "\<exists>width height. 0 < width \<and> 0 < height \<and> 1 \<le> mines s \<and> mines s \<le> width * height \<and>
           running s \<and> \<not> won s \<and> clicks s = 0 \<and>
           create_field shuffle width height (mines s) = Inr (field s, visible s)"
  by (rule init_game_start [OF assms])

lemma init_session0: "init_game rev [None, Some 0, Some 3, Some (-2), Some 3, Some 10, Some 1] = Inr session0"
  by code_simp

theorem init_game_valid_configuration_witness:
  "init_game rev [None, Some 0, Some 3, Some (-2), Some 3, Some 10, Some 1] = Inr session0 \<and>
   (\<exists>width height. 0 < width \<and> 0 < height \<and> 1 \<le> mines session0 \<and>
        mines session0 \<le> width * height \<and>
        running session0 \<and> \<not> won session0 \<and> clicks session0 = 0 \<and>
        create_field rev width height (mines session0) = Inr (field session0, visible session0))"
  using init_game_valid_configuration [OF init_session0] init_session0 by simp

section \<open>Grids\<close>

lemma py_position_in: "0 \<le> i \<Longrightarrow> i < int n \<Longrightarrow> py_position n i = Some (nat i)"
  by (simp add: py_position_def)

lemma py_index_in: "0 \<le> i \<Longrightarrow> i < int (length xs) \<Longrightarrow> py_index xs i = Inr (xs ! nat i)"
  by (simp add: py_index_def py_position_in)

lemma py_store_in:
  "0 \<le> i \<Longrightarrow> i < int (length xs) \<Longrightarrow> py_store xs i v = Inr (xs[nat i := v])"
  by (simp add: py_store_def py_position_in)

lemma grid_get_in: "in_grid g (x, y) \<Longrightarrow> grid_get g x y = Inr (tile_at g (x, y))"
  by (simp add: in_grid_def grid_get_def py_index_in tile_at_def)

lemma grid_set_in: "in_grid g (x, y) \<Longrightarrow> grid_set g x y v = Inr (put g (x, y) v)"
  by (simp add: in_grid_def grid_set_def py_index_in py_store_in put_def)

lemma shape_put: "map length (put g c v) = map length g"
proof (cases "nat (snd c) < length g")
  case True
  then have "map length (put g c v) =
             (map length g)[nat (snd c) := (map length g) ! nat (snd c)]"
    by (simp add: put_def map_update)
  then show ?thesis by (simp only: list_update_id)
next
  case False
  then have "length g \<le> nat (snd c)" by simp
  then show ?thesis unfolding put_def by (simp only: list_update_beyond)
qed

lemma in_grid_shape: "map length g = map length g' \<Longrightarrow> in_grid g c = in_grid g' c"
proof -
  assume a: "map length g = map length g'"
  then have l: "length g = length g'" by (metis length_map)
  have "length (g ! i) = length (g' ! i)" if "i < length g" for i
    using a that l by (metis nth_map)
  with l show ?thesis by (auto simp: in_grid_def)
qed

lemma tile_at_put:
  assumes "in_grid g c" and "in_grid g c'"
  shows "tile_at (put g c v) c' = (if c' = c then v else tile_at g c')"
proof -
  obtain x y where c: "c = (x, y)" by (cases c)
  obtain x' y' where c': "c' = (x', y')" by (cases c')
  from assms show ?thesis
    unfolding c c' in_grid_def tile_at_def put_def
    by (cases "y' = y"; cases "x' = x") (auto simp: nth_list_update)
qed

lemma distinct_cells_of_rows:
  "distinct ys \<Longrightarrow>
   distinct (concat (map (\<lambda>y. map (\<lambda>x. (int x, int y)) [0 ..< f y]) ys))"
proof (induction ys)
  case Nil
  show ?case by simp
next
  case (Cons y ys)
  have "distinct (map (\<lambda>x. (int x, int y)) [0 ..< f y])"
    by (simp add: distinct_map inj_on_def)
  with Cons show ?case by auto
qed

lemma distinct_all_cells: "distinct (all_cells g)"
  unfolding all_cells_def by (rule distinct_cells_of_rows) simp

lemma enumerate_nth: "enumerate 0 xs = map (\<lambda>i. (i, xs ! i)) [0 ..< length xs]"
  by (rule nth_equalityI) (simp_all add: nth_enumerate_eq)

lemma enumerate_tiles_all_cells:
  "enumerate_tiles g = map (\<lambda>c. (nat (snd c), nat (fst c), tile_at g c)) (all_cells g)"
  unfolding enumerate_tiles_def all_cells_def enumerate_nth
  by (simp add: map_concat comp_def tile_at_def)

section \<open>Loops over the field\<close>

text \<open>A loop that overwrites cells one by one, each at most once, and a loop that counts.\<close>

lemma for_each_writes:
  fixes body :: "'e \<Rightarrow> grid \<Rightarrow> error + grid"
  assumes step: "\<And>c v. c \<in> set cs \<Longrightarrow> map length v = map length g \<Longrightarrow> Inv v \<Longrightarrow>
              body (E c) v = Inr (if W c (tile_at v c) then put v c (N c) else v)"
    and keep: "\<And>c v. c \<in> set cs \<Longrightarrow> map length v = map length g \<Longrightarrow> Inv v \<Longrightarrow>
              W c (tile_at v c) \<Longrightarrow> Inv (put v c (N c))"
    and dist: "distinct cs"
    and inside: "\<And>c. c \<in> set cs \<Longrightarrow> in_grid g c"
    and shape: "map length v = map length g"
    and inv: "Inv v"
  shows "\<exists>v'. for_each (map E cs) body v = Inr v' \<and> map length v' = map length g \<and> Inv v' \<and>
           (\<forall>c. in_grid g c \<longrightarrow>
              tile_at v' c = (if c \<in> set cs \<and> W c (tile_at v c) then N c else tile_at v c))"
  using step keep dist inside shape inv
proof (induction cs arbitrary: v)
  case Nil
  then show ?case by simp
next
  case (Cons a cs)
  define v1 where "v1 = (if W a (tile_at v a) then put v a (N a) else v)"
  have b: "body (E a) v = Inr v1"
    unfolding v1_def using Cons.prems(1) [of a v] Cons.prems(5,6) by simp
  have s1: "map length v1 = map length g"
    unfolding v1_def using Cons.prems(5) by (simp add: shape_put)
  have i1: "Inv v1"
    unfolding v1_def using Cons.prems(2) [of a v] Cons.prems(5,6) by simp
  have a_in: "in_grid v a"
    using Cons.prems(4) [of a] in_grid_shape [OF Cons.prems(5)] by simp
  have t1: "tile_at v1 c = (if c = a \<and> W a (tile_at v a) then N a else tile_at v c)"
    if "in_grid g c" for c
  proof -
    from that have "in_grid v c" using in_grid_shape [OF Cons.prems(5)] by simp
    with a_in show ?thesis unfolding v1_def by (simp add: tile_at_put)
  qed
  have "\<exists>v'. for_each (map E cs) body v1 = Inr v' \<and> map length v' = map length g \<and> Inv v' \<and>
           (\<forall>c. in_grid g c \<longrightarrow>
              tile_at v' c = (if c \<in> set cs \<and> W c (tile_at v1 c) then N c else tile_at v1 c))"
  proof (rule Cons.IH)
    show "\<And>c v. c \<in> set cs \<Longrightarrow> map length v = map length g \<Longrightarrow> Inv v \<Longrightarrow>
              body (E c) v = Inr (if W c (tile_at v c) then put v c (N c) else v)"
      using Cons.prems(1) by simp
    show "\<And>c v. c \<in> set cs \<Longrightarrow> map length v = map length g \<Longrightarrow> Inv v \<Longrightarrow>
              W c (tile_at v c) \<Longrightarrow> Inv (put v c (N c))"
      using Cons.prems(2) by simp
    show "distinct cs" using Cons.prems(3) by simp
    show "\<And>c. c \<in> set cs \<Longrightarrow> in_grid g c" using Cons.prems(4) by simp
    show "map length v1 = map length g" by (rule s1)
    show "Inv v1" by (rule i1)
  qed
  then obtain v' where r: "for_each (map E cs) body v1 = Inr v'"
    and s': "map length v' = map length g" and i': "Inv v'"
    and t': "\<And>c. in_grid g c \<Longrightarrow>
              tile_at v' c = (if c \<in> set cs \<and> W c (tile_at v1 c) then N c else tile_at v1 c)"
    by blast
  have "for_each (map E (a # cs)) body v = Inr v'"
    using b r by simp
  moreover have "tile_at v' c =
      (if c \<in> set (a # cs) \<and> W c (tile_at v c) then N c else tile_at v c)"
    if c: "in_grid g c" for c
  proof (cases "c = a")
    case True
    with Cons.prems(3) have "c \<notin> set cs" by simp
    with t' [OF c] t1 [OF c] True show ?thesis by simp
  next
    case False
    with t' [OF c] t1 [OF c] show ?thesis by simp
  qed
  ultimately show ?case using s' i' by blast
qed

lemma for_each_counts:
  fixes body :: "'e \<Rightarrow> nat \<Rightarrow> error + nat"
  assumes "\<And>c n. c \<in> set cs \<Longrightarrow> body (E c) n = Inr (if P c then n + 1 else n)"
  shows "for_each (map E cs) body n = Inr (n + length (filter P cs))"
  using assms by (induction cs arbitrary: n) simp_all

subsection \<open>The loops of the game\<close>

lemma cell_index: "in_grid g c \<Longrightarrow> int (nat (fst c)) = fst c \<and> int (nat (snd c)) = snd c"
  by (simp add: in_grid_def)

lemma visible_get:
  assumes "same_shape s" and "c \<in> set (all_cells (field s))"
  shows "grid_get (visible s) (int (nat (fst c))) (int (nat (snd c))) = Inr (tile_at (visible s) c)"
proof -
  from assms(2) have f: "in_grid (field s) c" by (simp add: set_all_cells)
  with assms(1) have "in_grid (visible s) c"
    using in_grid_shape [of "visible s" "field s" c] by (simp add: same_shape_def)
  then have "grid_get (visible s) (fst c) (snd c) = Inr (tile_at (visible s) c)"
    using grid_get_in [of "visible s" "fst c" "snd c"] by simp
  with cell_index [OF f] show ?thesis by simp
qed

lemma count_unexplored_tiles_eq:
  assumes "same_shape s"
  shows "count_unexplored_tiles s = Inr (length (filter (unexplored s) (all_cells (field s))))"
proof -
  have "for_each (map (\<lambda>c. (nat (snd c), nat (fst c), tile_at (field s) c)) (all_cells (field s)))
          (\<lambda>(y, x, tile) tiles.
             if \<not> tile = ''x'' then
               (case grid_get (visible s) (int x) (int y) of
                  Inl e \<Rightarrow> Inl e
                | Inr t \<Rightarrow> Inr (if t = '' '' \<or> t = ''f'' then tiles + 1 else tiles))
             else Inr tiles) 0 =
        Inr (0 + length (filter (unexplored s) (all_cells (field s))))"
  proof (rule for_each_counts)
    fix c n
    assume c: "c \<in> set (all_cells (field s))"
    show "(case (nat (snd c), nat (fst c), tile_at (field s) c) of
            (y, x, tile) \<Rightarrow> \<lambda>tiles.
              if \<not> tile = ''x'' then
                (case grid_get (visible s) (int x) (int y) of
                   Inl e \<Rightarrow> Inl e
                 | Inr t \<Rightarrow> Inr (if t = '' '' \<or> t = ''f'' then tiles + 1 else tiles))
              else Inr tiles) n =
          Inr (if unexplored s c then n + 1 else n)"
      unfolding prod.case visible_get [OF assms c] sum.case by (simp add: unexplored_def)
  qed
  then show ?thesis
    by (simp add: count_unexplored_tiles_def enumerate_tiles_all_cells)
qed

lemma count_unflagged_mines_ok:
  assumes "same_shape s"
  shows "\<exists>n. count_unflagged_mines s = Inr n"
proof -
  have "for_each (map (\<lambda>c. (nat (snd c), nat (fst c), tile_at (field s) c)) (all_cells (field s)))
          (\<lambda>(y, x, tile) mines.
             if tile = ''x'' then
               (case grid_get (visible s) (int x) (int y) of
                  Inl e \<Rightarrow> Inl e
                | Inr t \<Rightarrow> Inr (if \<not> t = ''f'' then mines + 1 else mines))
             else Inr mines) 0 =
        Inr (0 + length (filter (\<lambda>c. tile_at (field s) c = ''x'' \<and> tile_at (visible s) c \<noteq> ''f'')
                          (all_cells (field s))))"
  proof (rule for_each_counts)
    fix c n
    assume c: "c \<in> set (all_cells (field s))"
    show "(case (nat (snd c), nat (fst c), tile_at (field s) c) of
            (y, x, tile) \<Rightarrow> \<lambda>mines.
              if tile = ''x'' then
                (case grid_get (visible s) (int x) (int y) of
                   Inl e \<Rightarrow> Inl e
                 | Inr t \<Rightarrow> Inr (if \<not> t = ''f'' then mines + 1 else mines))
              else Inr mines) n =
          Inr (if tile_at (field s) c = ''x'' \<and> tile_at (visible s) c \<noteq> ''f''
               then n + 1 else n)"
      unfolding prod.case visible_get [OF assms c] sum.case by simp
  qed
  then show ?thesis
    by (simp add: count_unflagged_mines_def enumerate_tiles_all_cells)
qed

lemma save_game_data_ok:
  assumes "same_shape s" and "field s \<noteq> []"
  shows "save_game_data s = Inr s"
proof -
  from assms(2) have "py_index (field s) 0 = Inr (field s ! 0)"
    using py_index_in [of 0 "field s"] by simp
  with count_unflagged_mines_ok [OF assms(1)] show ?thesis
    by (auto simp: save_game_data_def)
qed


lemma grid_get_cell:
  assumes "map length v = map length g" and "c \<in> set (all_cells g)"
  shows "grid_get v (int (nat (fst c))) (int (nat (snd c))) = Inr (tile_at v c)"
proof -
  from assms(2) have f: "in_grid g c" by (simp add: set_all_cells)
  with assms(1) have "in_grid v c" using in_grid_shape [of v g c] by simp
  then have "grid_get v (fst c) (snd c) = Inr (tile_at v c)"
    using grid_get_in [of v "fst c" "snd c"] by simp
  with cell_index [OF f] show ?thesis by simp
qed

lemma grid_set_cell:
  assumes "map length v = map length g" and "c \<in> set (all_cells g)"
  shows "grid_set v (int (nat (fst c))) (int (nat (snd c))) t = Inr (put v c t)"
proof -
  from assms(2) have f: "in_grid g c" by (simp add: set_all_cells)
  with assms(1) have "in_grid v c" using in_grid_shape [of v g c] by simp
  then have "grid_set v (fst c) (snd c) t = Inr (put v (fst c, snd c) t)"
    using grid_set_in [of v "fst c" "snd c"] by simp
  with cell_index [OF f] show ?thesis by simp
qed

lemma show_unflagged_mines_spec:
  assumes "same_shape s"
  shows "\<exists>v'. show_unflagged_mines s = Inr (s\<lparr>visible := v'\<rparr>) \<and>
           map length v' = map length (field s) \<and>
           (\<forall>c. in_grid (field s) c \<longrightarrow>
              tile_at v' c =
                (if tile_at (field s) c = ''x'' \<and> tile_at (visible s) c \<noteq> ''f'' then ''x''
                 else tile_at (visible s) c))"
proof -
  have "\<exists>v'. for_each (map (\<lambda>c. (nat (snd c), nat (fst c), tile_at (field s) c))
                          (all_cells (field s)))
             (\<lambda>(y, x, tile) v.
                if tile = ''x'' then
                  (case grid_get v (int x) (int y) of
                     Inl e \<Rightarrow> Inl e
                   | Inr t \<Rightarrow> if \<not> t = ''f'' then grid_set v (int x) (int y) ''x'' else Inr v)
                else Inr v)
             (visible s) = Inr v' \<and>
           map length v' = map length (field s) \<and> True \<and>
           (\<forall>c. in_grid (field s) c \<longrightarrow>
              tile_at v' c =
                (if c \<in> set (all_cells (field s)) \<and>
                    (tile_at (field s) c = ''x'' \<and> tile_at (visible s) c \<noteq> ''f'')
                 then ''x'' else tile_at (visible s) c))"
  proof (rule for_each_writes [where Inv = "\<lambda>v. True"
        and W = "\<lambda>c cur. tile_at (field s) c = ''x'' \<and> cur \<noteq> ''f''" and N = "\<lambda>c. ''x''"])
    fix c :: coord and v :: grid
    assume c: "c \<in> set (all_cells (field s))" and v: "map length v = map length (field s)"
    show "(case (nat (snd c), nat (fst c), tile_at (field s) c) of
            (y, x, tile) \<Rightarrow> \<lambda>v.
              if tile = ''x'' then
                (case grid_get v (int x) (int y) of
                   Inl e \<Rightarrow> Inl e
                 | Inr t \<Rightarrow> if \<not> t = ''f'' then grid_set v (int x) (int y) ''x'' else Inr v)
              else Inr v) v =
          Inr (if tile_at (field s) c = ''x'' \<and> tile_at v c \<noteq> ''f'' then put v c ''x'' else v)"
      unfolding prod.case grid_get_cell [OF v c] grid_set_cell [OF v c] sum.case by simp
  next
    show "distinct (all_cells (field s))" by (rule distinct_all_cells)
  next
    fix c assume "c \<in> set (all_cells (field s))"
    then show "in_grid (field s) c" by (simp add: set_all_cells)
  next
    show "map length (visible s) = map length (field s)"
      using assms by (simp add: same_shape_def)
  qed simp_all
  then show ?thesis
    by (auto simp: show_unflagged_mines_def enumerate_tiles_all_cells set_all_cells)
qed

lemma flag_all_mines_spec:
  assumes "same_shape s"
  shows "\<exists>v'. flag_all_mines s = Inr (s\<lparr>visible := v'\<rparr>) \<and>
           map length v' = map length (field s) \<and>
           (\<forall>c. in_grid (field s) c \<longrightarrow>
              tile_at v' c =
                (if tile_at (field s) c = ''x'' then ''f'' else tile_at (visible s) c))"
proof -
  have "\<exists>v'. for_each (map (\<lambda>c. (nat (snd c), nat (fst c), tile_at (field s) c))
                          (all_cells (field s)))
             (\<lambda>(y, x, tile) v.
                if tile = ''x'' then grid_set v (int x) (int y) ''f'' else Inr v)
             (visible s) = Inr v' \<and>
           map length v' = map length (field s) \<and> True \<and>
           (\<forall>c. in_grid (field s) c \<longrightarrow>
              tile_at v' c =
                (if c \<in> set (all_cells (field s)) \<and> tile_at (field s) c = ''x''
                 then ''f'' else tile_at (visible s) c))"
  proof (rule for_each_writes [where Inv = "\<lambda>v. True"
        and W = "\<lambda>c cur. tile_at (field s) c = ''x''" and N = "\<lambda>c. ''f''"])
    fix c :: coord and v :: grid
    assume c: "c \<in> set (all_cells (field s))" and v: "map length v = map length (field s)"
    show "(case (nat (snd c), nat (fst c), tile_at (field s) c) of
            (y, x, tile) \<Rightarrow> \<lambda>v.
              if tile = ''x'' then grid_set v (int x) (int y) ''f'' else Inr v) v =
          Inr (if tile_at (field s) c = ''x'' then put v c ''f'' else v)"
      unfolding prod.case grid_set_cell [OF v c] by simp
  next
    show "distinct (all_cells (field s))" by (rule distinct_all_cells)
  next
    fix c assume "c \<in> set (all_cells (field s))"
    then show "in_grid (field s) c" by (simp add: set_all_cells)
  next
    show "map length (visible s) = map length (field s)"
      using assms by (simp add: same_shape_def)
  qed simp_all
  then show ?thesis
    by (auto simp: flag_all_mines_def enumerate_tiles_all_cells set_all_cells)
qed

lemma lose_game_spec:
  assumes "same_shape s" and "field s \<noteq> []"
  shows "\<exists>v'. lose_game s = Inr (s\<lparr>running := False, visible := v'\<rparr>) \<and>
           map length v' = map length (field s) \<and>
           (\<forall>c. in_grid (field s) c \<longrightarrow>
              tile_at v' c =
                (if tile_at (field s) c = ''x'' \<and> tile_at (visible s) c \<noteq> ''f'' then ''x''
                 else tile_at (visible s) c))"
proof -
  have "same_shape (s\<lparr>running := False\<rparr>)" using assms(1) by (simp add: same_shape_def)
  from show_unflagged_mines_spec [OF this] obtain v'
    where r: "show_unflagged_mines (s\<lparr>running := False\<rparr>) = Inr (s\<lparr>running := False, visible := v'\<rparr>)"
      and sh: "map length v' = map length (field s)"
      and t: "\<And>c. in_grid (field s) c \<Longrightarrow>
              tile_at v' c =
                (if tile_at (field s) c = ''x'' \<and> tile_at (visible s) c \<noteq> ''f'' then ''x''
                 else tile_at (visible s) c)"
    by auto
  have "save_game_data (s\<lparr>running := False, visible := v'\<rparr>) = Inr (s\<lparr>running := False, visible := v'\<rparr>)"
    by (rule save_game_data_ok) (use sh assms(2) in \<open>simp_all add: same_shape_def\<close>)
  with r have "lose_game s = Inr (s\<lparr>running := False, visible := v'\<rparr>)"
    by (simp add: lose_game_def)
  with sh t show ?thesis by blast
qed

lemma win_game_spec:
  assumes "same_shape s" and "field s \<noteq> []"
  shows "\<exists>v'. win_game s = Inr (s\<lparr>running := False, won := True, visible := v'\<rparr>) \<and>
           map length v' = map length (field s) \<and>
           (\<forall>c. in_grid (field s) c \<longrightarrow>
              tile_at v' c =
                (if tile_at (field s) c = ''x'' then ''f'' else tile_at (visible s) c))"
proof -
  have "same_shape (s\<lparr>running := False, won := True\<rparr>)"
    using assms(1) by (simp add: same_shape_def)
  from flag_all_mines_spec [OF this] obtain v'
    where r: "flag_all_mines (s\<lparr>running := False, won := True\<rparr>) =
                Inr (s\<lparr>running := False, won := True, visible := v'\<rparr>)"
      and sh: "map length v' = map length (field s)"
      and t: "\<And>c. in_grid (field s) c \<Longrightarrow>
              tile_at v' c =
                (if tile_at (field s) c = ''x'' then ''f'' else tile_at (visible s) c)"
    by auto
  have "save_game_data (s\<lparr>running := False, won := True, visible := v'\<rparr>) =
          Inr (s\<lparr>running := False, won := True, visible := v'\<rparr>)"
    by (rule save_game_data_ok) (use sh assms(2) in \<open>simp_all add: same_shape_def\<close>)
  with r have "win_game s = Inr (s\<lparr>running := False, won := True, visible := v'\<rparr>)"
    by (simp add: win_game_def)
  with sh t show ?thesis by blast
qed

lemma count_unexplored_zero:
  assumes "same_shape s"
  shows "\<exists>n. count_unexplored_tiles s = Inr n \<and> (n = 0 \<longleftrightarrow> all_clear s)"
  unfolding count_unexplored_tiles_eq [OF assms] all_clear_def
  by (simp add: filter_empty_conv)

lemma str_small: "n < 10 \<Longrightarrow> str n = [''0123456789'' ! n]"
  by (subst str.simps) (simp add: digit_char_def)

lemma str_length: "1 \<le> length (str n)"
  by (subst str.simps) simp

lemma str_large: "10 \<le> n \<Longrightarrow> 2 \<le> length (str n)"
  using str_length [of "n div 10"] by (subst str.simps) simp

lemma digit_in_digits: "n < 10 \<Longrightarrow> ''0123456789'' ! n \<in> set ''0123456789''"
  by (rule nth_mem) simp

lemma str_not_special: "str n \<noteq> ''x'' \<and> str n \<noteq> '' '' \<and> str n \<noteq> ''f''"
proof (cases "n < 10")
  case True
  have "CHR ''x'' \<notin> set ''0123456789''" "CHR '' '' \<notin> set ''0123456789''"
    "CHR ''f'' \<notin> set ''0123456789''"
    by simp_all
  with digit_in_digits [OF True] show ?thesis
    by (auto simp: str_small [OF True])
next
  case False
  then have "2 \<le> length (str n)" by (simp add: str_large)
  then show ?thesis by auto
qed

lemma str_zero: "str n = ''0'' \<longleftrightarrow> n = 0"
proof (cases "n < 10")
  case True
  have "distinct ''0123456789''" by simp
  then have "(''0123456789'' ! n = ''0123456789'' ! 0) = (n = 0)"
    using True by (intro nth_eq_iff_index_eq) simp_all
  then show ?thesis by (simp add: str_small [OF True])
next
  case False
  then have "2 \<le> length (str n)" by (simp add: str_large)
  with False show ?thesis by auto
qed

section \<open>Fields and regions\<close>

lemma field_ok_tile:
  "field_ok g \<Longrightarrow> in_grid g c \<Longrightarrow>
   tile_at g c = ''x'' \<or> tile_at g c = str (neighbour_mines g c)"
  unfolding field_ok_def set_all_cells by blast

lemma zero_no_adjacent_mine:
  assumes "field_ok g" and "in_grid g c" and "tile_at g c = ''0''"
    and "in_grid g c'" and "adjacent c c'"
  shows "tile_at g c' \<noteq> ''x''"
proof
  assume m: "tile_at g c' = ''x''"
  from field_ok_tile [OF assms(1,2)] assms(3) have "str (neighbour_mines g c) = ''0''"
    by auto
  then have "neighbour_mines g c = 0" by (simp add: str_zero)
  then have "\<forall>c' \<in> set (all_cells g). \<not> (adjacent c c' \<and> tile_at g c' = ''x'')"
    by (simp add: neighbour_mines_def filter_empty_conv)
  moreover from assms(4) have "c' \<in> set (all_cells g)" unfolding set_all_cells by simp
  ultimately show False using assms(5) m by blast
qed

lemma field_tile_not_mark:
  assumes "field_ok g" and "in_grid g c"
  shows "tile_at g c \<noteq> '' '' \<and> tile_at g c \<noteq> ''f''"
proof -
  from assms have "tile_at g c = ''x'' \<or> tile_at g c = str (neighbour_mines g c)"
    by (rule field_ok_tile)
  then show ?thesis using str_not_special [of "neighbour_mines g c"] by auto
qed

lemma reach_in_grid: "c \<in> reach g seed \<Longrightarrow> in_grid g c"
  by (induction rule: reach.induct) simp_all

lemma reach_no_mine:
  assumes "field_ok g" and "tile_at g seed \<noteq> ''x''" and "c \<in> reach g seed"
  shows "tile_at g c \<noteq> ''x''"
  using assms(3)
proof (induction rule: reach.induct)
  case seed
  with assms(2) show ?case by simp
next
  case (step c c')
  from zero_no_adjacent_mine [OF assms(1) reach_in_grid [OF step.hyps(1)] step.hyps(2,3,4)]
  show ?case .
qed

lemma reach_single:
  assumes "in_grid g seed" and "tile_at g seed \<noteq> ''0''"
  shows "reach g seed = {seed}"
proof
  show "reach g seed \<subseteq> {seed}"
  proof
    fix c assume "c \<in> reach g seed"
    then show "c \<in> {seed}" using assms(2) by (induction rule: reach.induct) simp_all
  qed
  show "{seed} \<subseteq> reach g seed" using assms(1) by (simp add: reach.seed)
qed

lemma zero_region_zero: "c \<in> zero_region g seed \<Longrightarrow> in_grid g c \<and> tile_at g c = ''0''"
  by (induction rule: zero_region.induct) simp_all

lemma zero_region_reach: "c \<in> zero_region g seed \<Longrightarrow> c \<in> reach g seed"
proof (induction rule: zero_region.induct)
  case seed
  then show ?case by (simp add: reach.seed)
next
  case (step c c')
  from zero_region_zero [OF step.hyps(1)] step.IH step.hyps(2,3)
  show ?case by (auto intro: reach.step)
qed

lemma reach_region:
  assumes "field_ok g" and "tile_at g seed = ''0''"
  shows "reach g seed = zero_region g seed \<union> region_border g seed"
proof
  show "reach g seed \<subseteq> zero_region g seed \<union> region_border g seed"
  proof
    fix c assume "c \<in> reach g seed"
    then show "c \<in> zero_region g seed \<union> region_border g seed"
    proof (induction rule: reach.induct)
      case seed
      with assms(2) show ?case by (simp add: zero_region.seed)
    next
      case (step c c')
      from step.IH step.hyps(2) have z: "c \<in> zero_region g seed"
        by (auto simp: region_border_def)
      show ?case
      proof (cases "tile_at g c' = ''0''")
        case True
        with z step.hyps show ?thesis by (auto intro: zero_region.step)
      next
        case False
        from zero_no_adjacent_mine [OF assms(1) reach_in_grid [OF step.hyps(1)] step.hyps(2,3,4)]
        have "tile_at g c' \<noteq> ''x''" .
        with False z step.hyps(3,4) show ?thesis by (auto simp: region_border_def)
      qed
    qed
  qed
  show "zero_region g seed \<union> region_border g seed \<subseteq> reach g seed"
  proof
    fix c assume "c \<in> zero_region g seed \<union> region_border g seed"
    then show "c \<in> reach g seed"
    proof
      assume "c \<in> zero_region g seed" then show ?thesis by (rule zero_region_reach)
    next
      assume "c \<in> region_border g seed"
      then obtain z where "z \<in> zero_region g seed" "adjacent z c" "in_grid g c"
        by (auto simp: region_border_def)
      with zero_region_reach [of z g seed] zero_region_zero [of z g seed]
      show ?thesis by (auto intro: reach.step)
    qed
  qed
qed

lemma in_grid_neighbours:
  "set (get_surrounding_tiles s x y) = {c'. in_grid (field s) c' \<and> adjacent (x, y) c'}"
  unfolding set_get_surrounding_tiles adjacent_def by auto

section \<open>The cascade, round by round\<close>

lemma mem_all_cells: "c \<in> set (all_cells g) \<longleftrightarrow> in_grid g c"
  by (simp add: set_all_cells)

lemma cascade_invD:
  assumes "cascade_inv seed s te i"
  shows "field_ok (field s)" and "same_shape s" and "consistent s"
    and "tile_at (field s) seed \<noteq> ''x''"
    and "i \<le> length te" and "seed \<in> set te" and "distinct te"
    and "set te \<subseteq> reach (field s) seed"
    and "\<And>c. c \<in> set (take i te) \<Longrightarrow> tile_at (visible s) c = tile_at (field s) c"
    and "(\<forall>c \<in> set (take i te). tile_at (field s) c = ''0'' \<longrightarrow>
            (\<forall>c'. in_grid (field s) c' \<and> adjacent c c' \<longrightarrow> c' \<in> set te)) \<or> all_clear s"
    and "won s \<Longrightarrow> \<not> running s \<and> all_clear s \<and>
           (\<forall>c \<in> set (all_cells (field s)).
              tile_at (field s) c = ''x'' \<longrightarrow> tile_at (visible s) c = ''f'')"
    and "i = 0 \<Longrightarrow> \<not> won s" and "0 < i \<Longrightarrow> all_clear s \<Longrightarrow> won s"
  using assms unfolding cascade_inv_def by (simp_all split: if_splits)

lemma cascade_invI:
  assumes "field_ok (field s)" and "same_shape s" and "consistent s"
    and "tile_at (field s) seed \<noteq> ''x''"
    and "i \<le> length te" and "seed \<in> set te" and "distinct te"
    and "set te \<subseteq> reach (field s) seed"
    and "\<And>c. c \<in> set (take i te) \<Longrightarrow> tile_at (visible s) c = tile_at (field s) c"
    and "(\<forall>c \<in> set (take i te). tile_at (field s) c = ''0'' \<longrightarrow>
            (\<forall>c'. in_grid (field s) c' \<and> adjacent c c' \<longrightarrow> c' \<in> set te)) \<or> all_clear s"
    and "won s \<Longrightarrow> \<not> running s \<and> all_clear s \<and>
           (\<forall>c \<in> set (all_cells (field s)).
              tile_at (field s) c = ''x'' \<longrightarrow> tile_at (visible s) c = ''f'')"
    and "i = 0 \<Longrightarrow> \<not> won s" and "0 < i \<Longrightarrow> all_clear s \<Longrightarrow> won s"
  shows "cascade_inv seed s te i"
  unfolding cascade_inv_def using assms by (cases "i = 0") simp_all

lemma reveal_tile:
  assumes "same_shape s" and "in_grid (field s) c" and "in_grid (field s) c'"
  shows "tile_at (put (visible s) c t) c' = (if c' = c then t else tile_at (visible s) c')"
proof -
  from assms have "in_grid (visible s) c" "in_grid (visible s) c'"
    using in_grid_shape [of "visible s" "field s"] by (simp_all add: same_shape_def)
  then show ?thesis by (rule tile_at_put)
qed

lemma reveal_reads:
  assumes "same_shape s" and "in_grid (field s) (cx, cy)"
  shows "grid_get (field s) cx cy = Inr (tile_at (field s) (cx, cy))"
    and "grid_set (visible s) cx cy t = Inr (put (visible s) (cx, cy) t)"
proof -
  show "grid_get (field s) cx cy = Inr (tile_at (field s) (cx, cy))"
    using assms(2) by (rule grid_get_in)
  from assms have "in_grid (visible s) (cx, cy)"
    using in_grid_shape [of "visible s" "field s"] by (simp add: same_shape_def)
  then show "grid_set (visible s) cx cy t = Inr (put (visible s) (cx, cy) t)"
    by (rule grid_set_in)
qed


lemma unexplored_visible:
  "unexplored (s\<lparr>visible := v\<rparr>) c \<longleftrightarrow>
   tile_at (field s) c \<noteq> ''x'' \<and> (tile_at v c = '' '' \<or> tile_at v c = ''f'')"
  by (simp add: unexplored_def)

lemma explore_body_spec:
  assumes inv: "cascade_inv seed s te i" and lt: "i < length te"
  shows "\<exists>s1 te1. explore_body s te i = Inr (s1, te1) \<and>
           cascade_inv seed s1 te1 (Suc i) \<and> cascade_rel seed s s1"
proof -
  note I = cascade_invD [OF inv]
  define c where "c = te ! i"
  obtain cx cy where cxy: "te ! i = (cx, cy)" by (cases "te ! i")
  have c_te: "c \<in> set te" using lt by (simp add: c_def)
  with I(8) have cr: "c \<in> reach (field s) seed" by blast
  have cg: "in_grid (field s) c" using cr by (rule reach_in_grid)
  have cm: "tile_at (field s) c \<noteq> ''x''" using I(1,4) cr by (rule reach_no_mine)
  define t where "t = tile_at (field s) c"
  define v where "v = put (visible s) c t"
  define s1 where "s1 = s\<lparr>visible := v\<rparr>"
  have tk: "take (Suc i) te = take i te @ [c]"
    using lt by (simp add: take_Suc_conv_app_nth c_def)
  have g: "grid_get (field s) cx cy = Inr t"
    and w: "grid_set (visible s) cx cy t = Inr v"
    using reveal_reads(1) [OF I(2), of cx cy] reveal_reads(2) [OF I(2), of cx cy t] cg
    by (simp_all add: c_def cxy t_def v_def)
  have u: "explore_body s te i =
      (case count_unexplored_tiles s1 of
         Inl e \<Rightarrow> Inl e
       | Inr n \<Rightarrow>
           if n = 0 then
             (case win_game s1 of Inl e \<Rightarrow> Inl e | Inr s2 \<Rightarrow> Inr (s2, te))
           else if t = ''0'' then Inr (s1, append_new te (get_surrounding_tiles s cx cy))
           else Inr (s1, te))"
    unfolding explore_body_unfold [OF cxy g w] s1_def using cm by (simp add: t_def)
  have V: "tile_at v c' = (if c' = c then t else tile_at (visible s) c')"
    if "in_grid (field s) c'" for c'
    unfolding v_def using I(2) cg that by (rule reveal_tile)
  have f1: "field s1 = field s" and vis1: "visible s1 = v" by (simp_all add: s1_def)
  have sh1: "same_shape s1"
    using I(2) by (simp add: same_shape_def s1_def v_def shape_put)
  have fne: "field s \<noteq> []" using I(1) by (simp add: field_ok_def)
  have tmark: "t \<noteq> '' '' \<and> t \<noteq> ''f''"
    unfolding t_def using I(1) cg by (rule field_tile_not_mark)
  have cons1: "consistent s1"
    unfolding consistent_def f1 vis1
  proof
    fix c' assume "c' \<in> set (all_cells (field s))"
    then have g': "in_grid (field s) c'" by (simp add: mem_all_cells)
    from I(3) g' have "tile_at (visible s) c' = '' '' \<or> tile_at (visible s) c' = ''f'' \<or>
        tile_at (visible s) c' = tile_at (field s) c'"
      by (simp add: consistent_def mem_all_cells)
    with V [OF g'] show "tile_at v c' = '' '' \<or> tile_at v c' = ''f'' \<or>
        tile_at v c' = tile_at (field s) c'"
      by (auto simp: t_def)
  qed
  have done1: "tile_at v c' = tile_at (field s) c'" if "c' \<in> set (take (Suc i) te)" for c'
  proof -
    from that have "c' \<in> set te" by (rule in_set_takeD)
    with I(8) have "in_grid (field s) c'" by (auto intro: reach_in_grid)
    from V [OF this] that I(9) [of c'] show ?thesis by (auto simp: tk t_def)
  qed
  have unx: "unexplored s1 c' \<Longrightarrow> unexplored s c'" if "in_grid (field s) c'" for c'
    unfolding s1_def unexplored_visible using V [OF that] tmark
    by (auto simp: unexplored_def split: if_splits)
  have mono: "all_clear s1" if "all_clear s"
    unfolding all_clear_def f1
  proof
    fix c' assume a: "c' \<in> set (all_cells (field s))"
    with that have "\<not> unexplored s c'" by (simp add: all_clear_def)
    with unx [of c'] a show "\<not> unexplored s1 c'" by (auto simp: mem_all_cells)
  qed
  from count_unexplored_zero [OF sh1] obtain n
    where n: "count_unexplored_tiles s1 = Inr n" and n0: "n = 0 \<longleftrightarrow> all_clear s1" by blast
  show ?thesis
  proof (cases "n = 0")
    case True
    with n0 have ac1: "all_clear s1" by simp
    from win_game_spec [OF sh1] fne obtain v'
      where wg: "win_game s1 = Inr (s1\<lparr>running := False, won := True, visible := v'\<rparr>)"
        and shv: "map length v' = map length (field s)"
        and tv: "\<And>c'. in_grid (field s) c' \<Longrightarrow>
              tile_at v' c' = (if tile_at (field s) c' = ''x'' then ''f'' else tile_at v c')"
      by (auto simp: f1 vis1)
    define s2 where "s2 = s1\<lparr>running := False, won := True, visible := v'\<rparr>"
    have f2: "field s2 = field s" and vis2: "visible s2 = v'" and w2: "won s2"
      and r2: "\<not> running s2" and k2: "clicks s2 = clicks s" "mines s2 = mines s"
      by (simp_all add: s2_def s1_def)
    have eb: "explore_body s te i = Inr (s2, te)"
      unfolding u n using True wg by (simp add: s2_def)
    have ac2: "all_clear s2"
      unfolding all_clear_def f2
    proof
      fix c' assume a: "c' \<in> set (all_cells (field s))"
      then have g': "in_grid (field s) c'" by (simp add: mem_all_cells)
      from ac1 a have "\<not> unexplored s1 c'" by (simp add: all_clear_def f1)
      with tv [OF g'] show "\<not> unexplored s2 c'"
        by (auto simp: unexplored_def f1 f2 vis1 vis2)
    qed
    have inv2: "cascade_inv seed s2 te (Suc i)"
    proof (rule cascade_invI)
      show "field_ok (field s2)" using I(1) by (simp add: f2)
      show "same_shape s2" using shv by (simp add: same_shape_def f2 vis2)
      show "consistent s2"
        unfolding consistent_def f2 vis2
      proof
        fix c' assume "c' \<in> set (all_cells (field s))"
        then have g': "in_grid (field s) c'" by (simp add: mem_all_cells)
        from cons1 g' have "tile_at v c' = '' '' \<or> tile_at v c' = ''f'' \<or>
            tile_at v c' = tile_at (field s) c'"
          by (simp add: consistent_def mem_all_cells f1 vis1)
        with tv [OF g'] show "tile_at v' c' = '' '' \<or> tile_at v' c' = ''f'' \<or>
            tile_at v' c' = tile_at (field s) c'"
          by auto
      qed
      show "tile_at (field s2) seed \<noteq> ''x''" using I(4) by (simp add: f2)
      show "Suc i \<le> length te" using lt by simp
      show "seed \<in> set te" by (rule I(6))
      show "distinct te" by (rule I(7))
      show "set te \<subseteq> reach (field s2) seed" using I(8) by (simp add: f2)
      show "tile_at (visible s2) c' = tile_at (field s2) c'"
        if "c' \<in> set (take (Suc i) te)" for c'
      proof -
        from that have "c' \<in> set te" by (rule in_set_takeD)
        with I(8) have r': "c' \<in> reach (field s) seed" by blast
        have "tile_at (field s) c' \<noteq> ''x''" using I(1,4) r' by (rule reach_no_mine)
        with tv [OF reach_in_grid [OF r']] done1 [OF that] show ?thesis
          by (simp add: f2 vis2)
      qed
      show "(\<forall>c \<in> set (take (Suc i) te). tile_at (field s2) c = ''0'' \<longrightarrow>
              (\<forall>c'. in_grid (field s2) c' \<and> adjacent c c' \<longrightarrow> c' \<in> set te)) \<or> all_clear s2"
        using ac2 by simp
      show "\<not> running s2 \<and> all_clear s2 \<and>
           (\<forall>c \<in> set (all_cells (field s2)).
              tile_at (field s2) c = ''x'' \<longrightarrow> tile_at (visible s2) c = ''f'')"
        using r2 ac2 tv by (simp add: f2 vis2 mem_all_cells)
      show "Suc i = 0 \<Longrightarrow> \<not> won s2" by simp
      show "won s2" by (rule w2)
    qed
    have rel2: "cascade_rel seed s s2"
      unfolding cascade_rel_def
    proof (intro conjI ballI)
      show "field s2 = field s" by (rule f2)
      show "clicks s2 = clicks s" "mines s2 = mines s" by (rule k2)+
      show "won s \<longrightarrow> won s2" using w2 by simp
      show "\<not> won s2 \<longrightarrow> running s2 = running s" using w2 by simp
      fix c' assume "c' \<in> set (all_cells (field s))"
      then have g': "in_grid (field s) c'" by (simp add: mem_all_cells)
      show "if tile_at (field s) c' = ''x''
         then tile_at (visible s2) c' = tile_at (visible s) c' \<or>
              (won s2 \<and> tile_at (visible s2) c' = ''f'')
         else c' \<notin> reach (field s) seed \<longrightarrow>
              tile_at (visible s2) c' = tile_at (visible s) c'"
        using tv [OF g'] V [OF g'] w2 cr by (auto simp: vis2)
    qed
    from eb inv2 rel2 show ?thesis by blast
  next
    case False
    with n0 have nac1: "\<not> all_clear s1" by simp
    with mono have nac: "\<not> all_clear s" by blast
    with I(11) have nw: "\<not> won s" by blast
    then have nw1: "\<not> won s1" by (simp add: s1_def)
    define te1 where
      "te1 = (if t = ''0'' then append_new te (get_surrounding_tiles s cx cy) else te)"
    have eb: "explore_body s te i = Inr (s1, te1)"
      unfolding u n using False by (simp add: te1_def)
    have set1: "set te1 = (if t = ''0''
        then set te \<union> {c'. in_grid (field s) c' \<and> adjacent c c'} else set te)"
      by (simp add: te1_def set_append_new in_grid_neighbours c_def cxy)
    have tk1: "take (Suc i) te1 = take (Suc i) te"
      using lt by (simp add: te1_def take_append_new)
    have inv1: "cascade_inv seed s1 te1 (Suc i)"
    proof (rule cascade_invI)
      show "field_ok (field s1)" using I(1) by (simp add: f1)
      show "same_shape s1" by (rule sh1)
      show "consistent s1" by (rule cons1)
      show "tile_at (field s1) seed \<noteq> ''x''" using I(4) by (simp add: f1)
      show "Suc i \<le> length te1"
        using lt length_append_new [of te "get_surrounding_tiles s cx cy"]
        by (simp add: te1_def)
      show "seed \<in> set te1" using I(6) by (simp add: set1)
      show "distinct te1" using I(7) by (simp add: te1_def distinct_append_new)
      show "set te1 \<subseteq> reach (field s1) seed"
        unfolding f1 set1 using I(8) cr by (auto simp: t_def intro: reach.step)
      show "tile_at (visible s1) c' = tile_at (field s1) c'"
        if "c' \<in> set (take (Suc i) te1)" for c'
        using done1 [of c'] that by (simp add: tk1 f1 vis1)
      from I(10) nac
      have cl: "\<forall>c \<in> set (take i te). tile_at (field s) c = ''0'' \<longrightarrow>
            (\<forall>c'. in_grid (field s) c' \<and> adjacent c c' \<longrightarrow> c' \<in> set te)"
        by blast
      have "\<forall>c0 \<in> set (take (Suc i) te1). tile_at (field s1) c0 = ''0'' \<longrightarrow>
              (\<forall>c'. in_grid (field s1) c' \<and> adjacent c0 c' \<longrightarrow> c' \<in> set te1)"
        unfolding tk1 tk f1
      proof (intro ballI impI allI)
        fix c0 c'
        assume c0: "c0 \<in> set (take i te @ [c])" and z: "tile_at (field s) c0 = ''0''"
          and a: "in_grid (field s) c' \<and> adjacent c0 c'"
        show "c' \<in> set te1"
        proof (cases "c0 = c")
          case True
          with z a show ?thesis by (simp add: set1 t_def)
        next
          case False
          with c0 have "c0 \<in> set (take i te)" by simp
          with cl z a have "c' \<in> set te" by blast
          then show ?thesis by (simp add: set1)
        qed
      qed
      then show "(\<forall>c \<in> set (take (Suc i) te1). tile_at (field s1) c = ''0'' \<longrightarrow>
              (\<forall>c'. in_grid (field s1) c' \<and> adjacent c c' \<longrightarrow> c' \<in> set te1)) \<or> all_clear s1"
        by blast
      show "\<not> running s1 \<and> all_clear s1 \<and>
           (\<forall>c \<in> set (all_cells (field s1)).
              tile_at (field s1) c = ''x'' \<longrightarrow> tile_at (visible s1) c = ''f'')"
        if "won s1"
        using that nw1 by simp
      show "Suc i = 0 \<Longrightarrow> \<not> won s1" by simp
      show "won s1" if "all_clear s1" using that nac1 by simp
    qed
    have rel1: "cascade_rel seed s s1"
      unfolding cascade_rel_def
    proof (intro conjI ballI)
      show "field s1 = field s" by (rule f1)
      show "clicks s1 = clicks s" "mines s1 = mines s" by (simp_all add: s1_def)
      show "won s \<longrightarrow> won s1" by (simp add: s1_def)
      show "\<not> won s1 \<longrightarrow> running s1 = running s" by (simp add: s1_def)
      fix c' assume "c' \<in> set (all_cells (field s))"
      then have g': "in_grid (field s) c'" by (simp add: mem_all_cells)
      show "if tile_at (field s) c' = ''x''
         then tile_at (visible s1) c' = tile_at (visible s) c' \<or>
              (won s1 \<and> tile_at (visible s1) c' = ''f'')
         else c' \<notin> reach (field s) seed \<longrightarrow>
              tile_at (visible s1) c' = tile_at (visible s) c'"
        using V [OF g'] cm cr by (auto simp: vis1)
    qed
    from eb inv1 rel1 show ?thesis by blast
  qed
qed

lemma cascade_rel_refl: "cascade_rel seed s s"
  by (simp add: cascade_rel_def)

lemma cascade_rel_trans:
  assumes a: "cascade_rel seed s s1" and b: "cascade_rel seed s1 s2"
  shows "cascade_rel seed s s2"
proof -
  from a have f1: "field s1 = field s" by (simp add: cascade_rel_def)
  from b have f2: "field s2 = field s" by (simp add: cascade_rel_def f1)
  have w: "won s \<longrightarrow> won s2" "won s1 \<longrightarrow> won s2"
    using a b by (simp_all add: cascade_rel_def)
  have r: "\<not> won s2 \<longrightarrow> running s2 = running s"
    using a b by (auto simp: cascade_rel_def)
  have k: "clicks s2 = clicks s" "mines s2 = mines s"
    using a b by (simp_all add: cascade_rel_def)
  have cells: "if tile_at (field s) c = ''x''
         then tile_at (visible s2) c = tile_at (visible s) c \<or>
              (won s2 \<and> tile_at (visible s2) c = ''f'')
         else c \<notin> reach (field s) seed \<longrightarrow>
              tile_at (visible s2) c = tile_at (visible s) c"
    if c: "c \<in> set (all_cells (field s))" for c
  proof -
    from a c have 1: "if tile_at (field s) c = ''x''
         then tile_at (visible s1) c = tile_at (visible s) c \<or>
              (won s1 \<and> tile_at (visible s1) c = ''f'')
         else c \<notin> reach (field s) seed \<longrightarrow>
              tile_at (visible s1) c = tile_at (visible s) c"
      unfolding cascade_rel_def by blast
    from b c have 2: "if tile_at (field s) c = ''x''
         then tile_at (visible s2) c = tile_at (visible s1) c \<or>
              (won s2 \<and> tile_at (visible s2) c = ''f'')
         else c \<notin> reach (field s) seed \<longrightarrow>
              tile_at (visible s2) c = tile_at (visible s1) c"
      unfolding cascade_rel_def f1 by blast
    from 1 2 w show ?thesis by (auto split: if_splits)
  qed
  show ?thesis
    unfolding cascade_rel_def using f2 k w(1) r cells by blast
qed

lemma explore_loop_spec:
  "cascade_inv seed s te i \<Longrightarrow>
   \<exists>s' te'. explore_loop s te i = Inr (s', te') \<and>
             cascade_inv seed s' te' (length te') \<and> cascade_rel seed s s' \<and>
             0 < length te'"
proof (induction s te i rule: explore_loop.induct)
  case (1 s te i)
  note I = cascade_invD [OF "1.prems"]
  show ?case
  proof (cases "i < length te")
    case True
    from explore_body_spec [OF "1.prems" True] obtain s1 te1
      where b: "explore_body s te i = Inr (s1, te1)"
        and inv1: "cascade_inv seed s1 te1 (Suc i)" and rel1: "cascade_rel seed s s1"
      by blast
    from "1.IH" [OF True b refl] inv1 obtain s' te'
      where l: "explore_loop s1 te1 (i + 1) = Inr (s', te')"
        and inv': "cascade_inv seed s' te' (length te')" and rel': "cascade_rel seed s1 s'"
        and pos: "0 < length te'"
      by auto
    have "explore_loop s te i = Inr (s', te')"
      using True b l by (subst explore_loop.simps) simp
    with inv' cascade_rel_trans [OF rel1 rel'] pos show ?thesis by blast
  next
    case False
    with I(5) have e: "i = length te" by simp
    have "explore_loop s te i = Inr (s, te)"
      using False by (subst explore_loop.simps) simp
    moreover have "0 < length te" using I(6) by (cases te) auto
    ultimately show ?thesis using "1.prems" e cascade_rel_refl by blast
  qed
qed

section \<open>The cascade as a whole\<close>

lemma session_okD:
  assumes "session_ok s"
  shows "field_ok (field s)" and "same_shape s" and "consistent s"
    and "running s \<Longrightarrow> \<not> won s"
    and "running s \<Longrightarrow> in_grid (field s) c \<Longrightarrow> tile_at (field s) c = ''x'' \<Longrightarrow>
         tile_at (visible s) c \<noteq> ''x''"
  using assms by (auto simp: session_ok_def mem_all_cells)

lemma consistentD:
  "consistent s \<Longrightarrow> in_grid (field s) c \<Longrightarrow>
   tile_at (visible s) c = '' '' \<or> tile_at (visible s) c = ''f'' \<or>
   tile_at (visible s) c = tile_at (field s) c"
  by (simp add: consistent_def mem_all_cells)

lemma cascade_start:
  assumes "field_ok (field s)" and "same_shape s" and "consistent s" and "\<not> won s"
    and "in_grid (field s) seed" and "tile_at (field s) seed \<noteq> ''x''"
  shows "cascade_inv seed s [seed] 0"
  by (rule cascade_invI) (use assms in \<open>simp_all add: reach.seed\<close>)

lemma cascade_end_reach:
  assumes inv: "cascade_inv seed s te (length te)" and c: "c \<in> reach (field s) seed"
  shows "tile_at (visible s) c = tile_at (field s) c"
proof -
  note I = cascade_invD [OF inv]
  from I(10) show ?thesis
  proof
    assume cl: "\<forall>c \<in> set (take (length te) te). tile_at (field s) c = ''0'' \<longrightarrow>
            (\<forall>c'. in_grid (field s) c' \<and> adjacent c c' \<longrightarrow> c' \<in> set te)"
    from c have "c \<in> set te"
    proof (induction rule: reach.induct)
      case seed
      show ?case by (rule I(6))
    next
      case (step c c')
      with cl show ?case by (cases c') auto
    qed
    with I(9) [of c] show ?thesis by simp
  next
    assume ac: "all_clear s"
    have g: "in_grid (field s) c" using c by (rule reach_in_grid)
    have m: "tile_at (field s) c \<noteq> ''x''" using I(1,4) c by (rule reach_no_mine)
    from ac g have "\<not> unexplored s c" by (simp add: all_clear_def mem_all_cells)
    with m consistentD [OF I(3) g] show ?thesis by (auto simp: unexplored_def)
  qed
qed

lemma cascade_rel_cell:
  assumes "cascade_rel seed s s'" and "in_grid (field s) c"
  shows "if tile_at (field s) c = ''x''
         then tile_at (visible s') c = tile_at (visible s) c \<or>
              (won s' \<and> tile_at (visible s') c = ''f'')
         else c \<notin> reach (field s) seed \<longrightarrow>
              tile_at (visible s') c = tile_at (visible s) c"
proof -
  from assms(1) have "\<forall>c \<in> set (all_cells (field s)).
         if tile_at (field s) c = ''x''
         then tile_at (visible s') c = tile_at (visible s) c \<or>
              (won s' \<and> tile_at (visible s') c = ''f'')
         else c \<notin> reach (field s) seed \<longrightarrow>
              tile_at (visible s') c = tile_at (visible s) c"
    by (simp add: cascade_rel_def)
  moreover from assms(2) have "c \<in> set (all_cells (field s))" by (simp add: mem_all_cells)
  ultimately show ?thesis by (rule bspec)
qed

lemma cascade_rel_other:
  assumes "cascade_rel seed s s'" and "in_grid (field s) c"
    and "tile_at (field s) c \<noteq> ''x''" and "c \<notin> reach (field s) seed"
  shows "tile_at (visible s') c = tile_at (visible s) c"
  using cascade_rel_cell [OF assms(1,2)] assms(3,4) by simp

lemma cascade_rel_mine:
  assumes rel: "cascade_rel seed s s'" and inv: "cascade_inv seed s' te i"
    and g: "in_grid (field s) c" and m: "tile_at (field s) c = ''x''"
  shows "tile_at (visible s') c = (if won s' then ''f'' else tile_at (visible s) c)"
proof -
  from rel have f: "field s' = field s" by (simp add: cascade_rel_def)
  from cascade_rel_cell [OF rel g] m have d: "tile_at (visible s') c = tile_at (visible s) c \<or>
      (won s' \<and> tile_at (visible s') c = ''f'')"
    by simp
  show ?thesis
  proof (cases "won s'")
    case True
    from cascade_invD(11) [OF inv True]
    have "\<forall>c \<in> set (all_cells (field s)).
            tile_at (field s) c = ''x'' \<longrightarrow> tile_at (visible s') c = ''f''"
      by (simp add: f)
    moreover from g have "c \<in> set (all_cells (field s))" by (simp add: mem_all_cells)
    ultimately have "tile_at (field s) c = ''x'' \<longrightarrow> tile_at (visible s') c = ''f''"
      by (rule bspec)
    with m True show ?thesis by simp
  next
    case False
    with d show ?thesis by simp
  qed
qed

text \<open>The cascade from a cell that is not a mine.\<close>

lemma explore_tile_safe:
  assumes "field_ok (field s)" and "same_shape s" and "consistent s" and "\<not> won s"
    and "in_grid (field s) (x, y)" and "tile_at (field s) (x, y) \<noteq> ''x''"
  shows "\<exists>s' te. explore_loop s [(x, y)] 0 = Inr (s', te) \<and> explore_tile s x y = Inr s' \<and>
           cascade_inv (x, y) s' te (length te) \<and> cascade_rel (x, y) s s' \<and> 0 < length te"
proof -
  from explore_loop_spec [OF cascade_start [OF assms]] obtain s' te
    where l: "explore_loop s [(x, y)] 0 = Inr (s', te)"
      and r: "cascade_inv (x, y) s' te (length te)" "cascade_rel (x, y) s s'" "0 < length te"
    by blast
  from l have "explore_tile s x y = Inr s'" by (simp add: explore_tile_def)
  with l r show ?thesis by blast
qed

text \<open>The click on a mine.\<close>

lemma explore_tile_mine:
  assumes fok: "field_ok (field s)" and sh: "same_shape s"
    and g: "in_grid (field s) (x, y)" and m: "tile_at (field s) (x, y) = ''x''"
  shows "\<exists>v'. explore_loop s [(x, y)] 0 = Inr (s\<lparr>running := False, visible := v'\<rparr>, [(x, y)]) \<and>
           explore_tile s x y = Inr (s\<lparr>running := False, visible := v'\<rparr>) \<and>
           map length v' = map length (field s) \<and>
           (\<forall>c. in_grid (field s) c \<longrightarrow>
              tile_at v' c =
                (if c = (x, y) then ''x''
                 else if tile_at (field s) c = ''x'' \<and> tile_at (visible s) c \<noteq> ''f'' then ''x''
                 else tile_at (visible s) c))"
proof -
  define v where "v = put (visible s) (x, y) ''x''"
  define s1 where "s1 = s\<lparr>visible := v\<rparr>"
  have gr: "grid_get (field s) x y = Inr ''x''"
    and w: "grid_set (visible s) x y ''x'' = Inr v"
    using reveal_reads(1) [OF sh g] reveal_reads(2) [OF sh g, of "''x''"] m
    by (simp_all add: v_def)
  have nth: "[(x, y)] ! 0 = (x, y)" by simp
  have u: "explore_body s [(x, y)] 0 =
      (case lose_game s1 of Inl e \<Rightarrow> Inl e | Inr s2 \<Rightarrow> Inr (s2, [(x, y)]))"
    unfolding explore_body_unfold [OF nth gr w] s1_def by simp
  have sh1: "same_shape s1" using sh by (simp add: same_shape_def s1_def v_def shape_put)
  have fne: "field s1 \<noteq> []" using fok by (simp add: field_ok_def s1_def)
  from lose_game_spec [OF sh1 fne] obtain v'
    where lg: "lose_game s1 = Inr (s1\<lparr>running := False, visible := v'\<rparr>)"
      and shv: "map length v' = map length (field s)"
      and tv: "\<And>c. in_grid (field s) c \<Longrightarrow>
              tile_at v' c =
                (if tile_at (field s) c = ''x'' \<and> tile_at v c \<noteq> ''f'' then ''x''
                 else tile_at v c)"
    by (auto simp: s1_def)
  have s2: "s1\<lparr>running := False, visible := v'\<rparr> = s\<lparr>running := False, visible := v'\<rparr>"
    by (simp add: s1_def)
  have b: "explore_body s [(x, y)] 0 = Inr (s\<lparr>running := False, visible := v'\<rparr>, [(x, y)])"
    unfolding u lg s2 by simp
  have l1: "explore_loop (s\<lparr>running := False, visible := v'\<rparr>) [(x, y)] (Suc 0) =
            Inr (s\<lparr>running := False, visible := v'\<rparr>, [(x, y)])"
    by (subst explore_loop.simps) simp
  have l: "explore_loop s [(x, y)] 0 = Inr (s\<lparr>running := False, visible := v'\<rparr>, [(x, y)])"
    by (subst explore_loop.simps) (simp add: b l1 del: explore_loop.simps)
  have V: "tile_at v c = (if c = (x, y) then ''x'' else tile_at (visible s) c)"
    if "in_grid (field s) c" for c
    unfolding v_def using sh g that by (rule reveal_tile)
  have "tile_at v' c =
                (if c = (x, y) then ''x''
                 else if tile_at (field s) c = ''x'' \<and> tile_at (visible s) c \<noteq> ''f'' then ''x''
                 else tile_at (visible s) c)" if "in_grid (field s) c" for c
    using tv [OF that] V [OF that] m by auto
  with l shv show ?thesis by (auto simp: explore_tile_def)
qed

section \<open>The claims about a click\<close>

lemma click_state:
  assumes "session_ok s" and "running s"
  shows "field_ok (field s)" and "same_shape s" and "consistent s" and "\<not> won s"
  using session_okD(1-4) [OF assms(1)] assms(2) by simp_all

text \<open>
  Claim C2. The click on a hidden cell whose tile is \<^verbatim>\<open>"0"\<close>, in a running session, returns,
  and afterwards every cell of the connected zero region of the clicked cell and of its
  numbered border shows its tile, none of them a mine; every other cell is as it was
  before, but for the mines, which a win flags.
\<close>

theorem cascade_reveals_region:
  assumes ok: "session_ok s" and run: "running s"
    and g: "in_grid (field s) (x, y)" and hid: "tile_at (visible s) (x, y) = '' ''"
    and z: "tile_at (field s) (x, y) = ''0''"
  shows "\<exists>s'. explore_tile s x y = Inr s' \<and> field s' = field s \<and>
           (\<forall>c \<in> set (all_cells (field s)).
              if c \<in> zero_region (field s) (x, y) \<union> region_border (field s) (x, y)
              then tile_at (field s) c \<noteq> ''x'' \<and>
                   tile_at (visible s') c = tile_at (field s) c
              else tile_at (visible s') c =
                     (if tile_at (field s) c = ''x'' \<and> won s' then ''f''
                      else tile_at (visible s) c))"
proof -
  note S = click_state [OF ok run]
  from z have nm: "tile_at (field s) (x, y) \<noteq> ''x''" by simp
  from explore_tile_safe [OF S g nm] obtain s' te
    where e: "explore_tile s x y = Inr s'"
      and inv: "cascade_inv (x, y) s' te (length te)" and rel: "cascade_rel (x, y) s s'"
    by blast
  from rel have f: "field s' = field s" by (simp add: cascade_rel_def)
  have R: "reach (field s) (x, y) = zero_region (field s) (x, y) \<union> region_border (field s) (x, y)"
    using S(1) z by (rule reach_region)
  have "if c \<in> zero_region (field s) (x, y) \<union> region_border (field s) (x, y)
              then tile_at (field s) c \<noteq> ''x'' \<and>
                   tile_at (visible s') c = tile_at (field s) c
              else tile_at (visible s') c =
                     (if tile_at (field s) c = ''x'' \<and> won s' then ''f''
                      else tile_at (visible s) c)"
    if c: "c \<in> set (all_cells (field s))" for c
  proof (cases "c \<in> reach (field s) (x, y)")
    case True
    from cascade_end_reach [OF inv, of c] True have "tile_at (visible s') c = tile_at (field s) c"
      by (simp add: f)
    moreover have "tile_at (field s) c \<noteq> ''x''" using S(1) nm True by (rule reach_no_mine)
    ultimately show ?thesis using True by (simp add: R)
  next
    case False
    from c have cg: "in_grid (field s) c" by (simp add: mem_all_cells)
    show ?thesis
    proof (cases "tile_at (field s) c = ''x''")
      case True
      from cascade_rel_mine [OF rel inv cg True] False True show ?thesis
        by (simp add: R)
    next
      case nx: False
      from cascade_rel_other [OF rel cg nx False] False nx show ?thesis
        by (simp add: R)
    qed
  qed
  with e f show ?thesis by blast
qed

theorem cascade_reveals_region_witness:
  "session_ok session0 \<and>
   running session0 \<and>
   in_grid (field session0) (0, 0) \<and>
   tile_at (visible session0) (0, 0) = '' '' \<and>
   tile_at (field session0) (0, 0) = ''0'' \<and>
   (\<exists>s'. explore_tile session0 0 0 = Inr s' \<and> field s' = field session0 \<and>
           (\<forall>c \<in> set (all_cells (field session0)).
              if c \<in> zero_region (field session0) (0, 0) \<union> region_border (field session0) (0, 0)
              then tile_at (field session0) c \<noteq> ''x'' \<and>
                   tile_at (visible s') c = tile_at (field session0) c
              else tile_at (visible s') c =
                     (if tile_at (field session0) c = ''x'' \<and> won s' then ''f''
                      else tile_at (visible session0) c)))"
proof -
  have h:
    "session_ok session0"
    "running session0"
    "in_grid (field session0) (0, 0)"
    "tile_at (visible session0) (0, 0) = '' ''"
    "tile_at (field session0) (0, 0) = ''0''"
    by code_simp+
  from cascade_reveals_region [OF h] h show ?thesis by - (intro conjI; assumption)
qed

text \<open>
  Claim C3 says that a click wins exactly when afterwards every cell that is not a mine is
  revealed. On a field of nothing but mines no such cell exists, and the first click
  loses: the session \<^verbatim>\<open>init_game\<close> starts for one cell and one mine.
\<close>

theorem all_clear_without_win:
  "init_game keep_order [Some 1, Some 1, Some 1] = Inr mine_only \<and>
   handle_mouse mine_only 5 5 MOUSE_LEFT = Inr mine_only_lost \<and>
   all_clear mine_only_lost \<and> \<not> won mine_only_lost"
proof -
  have "init_game keep_order [Some 1, Some 1, Some 1] = Inr mine_only" by code_simp
  moreover have "handle_mouse mine_only 5 5 MOUSE_LEFT = Inr mine_only_lost" by code_simp
  moreover have "all_clear mine_only_lost" by code_simp
  moreover have "\<not> won mine_only_lost" by code_simp
  ultimately show ?thesis by - (intro conjI; assumption)
qed

text \<open>
  C3, as the code has it: the click on a hidden cell of a running session wins exactly when
  the clicked cell is not a mine and afterwards every cell that is not a mine is revealed;
  a session that is won no longer runs.
\<close>

theorem won_iff_all_clear:
  assumes ok: "session_ok s" and run: "running s"
    and g: "in_grid (field s) (x, y)" and hid: "tile_at (visible s) (x, y) = '' ''"
  shows "\<exists>s'. explore_tile s x y = Inr s' \<and>
           (won s' \<longleftrightarrow> tile_at (field s) (x, y) \<noteq> ''x'' \<and> all_clear s') \<and>
           (won s' \<longrightarrow> \<not> running s')"
proof (cases "tile_at (field s) (x, y) = ''x''")
  case True
  note S = click_state [OF ok run]
  from explore_tile_mine [OF S(1,2) g True] obtain v'
    where "explore_tile s x y = Inr (s\<lparr>running := False, visible := v'\<rparr>)" by blast
  with S(4) True show ?thesis by simp
next
  case False
  note S = click_state [OF ok run]
  from explore_tile_safe [OF S g False] obtain s' te
    where e: "explore_tile s x y = Inr s'"
      and inv: "cascade_inv (x, y) s' te (length te)" and pos: "0 < length te"
    by blast
  note I = cascade_invD [OF inv]
  from I(11) I(13) [OF pos] have "won s' \<longleftrightarrow> all_clear s'" by blast
  moreover from I(11) have "won s' \<longrightarrow> \<not> running s'" by blast
  ultimately show ?thesis using e False by blast
qed

theorem won_iff_all_clear_witness:
  "session_ok session0 \<and>
   running session0 \<and>
   in_grid (field session0) (0, 0) \<and>
   tile_at (visible session0) (0, 0) = '' '' \<and>
   (\<exists>s'. explore_tile session0 0 0 = Inr s' \<and>
           (won s' \<longleftrightarrow> tile_at (field session0) (0, 0) \<noteq> ''x'' \<and> all_clear s') \<and>
           (won s' \<longrightarrow> \<not> running s'))"
proof -
  have h:
    "session_ok session0"
    "running session0"
    "in_grid (field session0) (0, 0)"
    "tile_at (visible session0) (0, 0) = '' ''"
    by code_simp+
  from won_iff_all_clear [OF h] h show ?thesis by - (intro conjI; assumption)
qed



text \<open>
  Claim C5. After a click that wins, every mine is flagged, one flagged before as well, and
  every other cell shows its tile, so that none is hidden.
\<close>

theorem win_flags_all_mines:
  assumes ok: "session_ok s" and run: "running s"
    and g: "in_grid (field s) (x, y)" and hid: "tile_at (visible s) (x, y) = '' ''"
  shows "\<exists>s'. explore_tile s x y = Inr s' \<and>
           (won s' \<longrightarrow>
              (\<forall>c \<in> set (all_cells (field s)).
                 if tile_at (field s) c = ''x'' then tile_at (visible s') c = ''f''
                 else tile_at (visible s') c \<noteq> '' '' \<and>
                      tile_at (visible s') c = tile_at (field s) c))"
proof (cases "tile_at (field s) (x, y) = ''x''")
  case True
  note S = click_state [OF ok run]
  from explore_tile_mine [OF S(1,2) g True] obtain v'
    where "explore_tile s x y = Inr (s\<lparr>running := False, visible := v'\<rparr>)" by blast
  with S(4) show ?thesis by simp
next
  case False
  note S = click_state [OF ok run]
  from explore_tile_safe [OF S g False] obtain s' te
    where e: "explore_tile s x y = Inr s'"
      and inv: "cascade_inv (x, y) s' te (length te)" and rel: "cascade_rel (x, y) s s'"
    by blast
  note I = cascade_invD [OF inv]
  from rel have f: "field s' = field s" by (simp add: cascade_rel_def)
  have "if tile_at (field s) c = ''x'' then tile_at (visible s') c = ''f''
        else tile_at (visible s') c \<noteq> '' '' \<and> tile_at (visible s') c = tile_at (field s) c"
    if w: "won s'" and c: "c \<in> set (all_cells (field s))" for c
  proof (cases "tile_at (field s) c = ''x''")
    case True
    from c have cg: "in_grid (field s) c" by (simp add: mem_all_cells)
    from cascade_rel_mine [OF rel inv cg True] w True show ?thesis by simp
  next
    case nx: False
    from c have cg: "in_grid (field s') c" by (simp add: mem_all_cells f)
    from I(11) [OF w] have "all_clear s'" by simp
    with c have "\<not> unexplored s' c" by (simp add: all_clear_def f)
    with nx consistentD [OF I(3) cg] show ?thesis by (auto simp: unexplored_def f)
  qed
  with e show ?thesis by blast
qed

theorem win_flags_all_mines_witness:
  "session_ok session0_flagged \<and>
   running session0_flagged \<and>
   in_grid (field session0_flagged) (0, 0) \<and>
   tile_at (visible session0_flagged) (0, 0) = '' '' \<and>
   (\<exists>s'. explore_tile session0_flagged 0 0 = Inr s' \<and>
           (won s' \<longrightarrow>
              (\<forall>c \<in> set (all_cells (field session0_flagged)).
                 if tile_at (field session0_flagged) c = ''x'' then tile_at (visible s') c = ''f''
                 else tile_at (visible s') c \<noteq> '' '' \<and>
                      tile_at (visible s') c = tile_at (field session0_flagged) c)))"
proof -
  have h:
    "session_ok session0_flagged"
    "running session0_flagged"
    "in_grid (field session0_flagged) (0, 0)"
    "tile_at (visible session0_flagged) (0, 0) = '' ''"
    by code_simp+
  from win_flags_all_mines [OF h] h show ?thesis by - (intro conjI; assumption)
qed

section \<open>The cascade ends\<close>

lemma length_all_cells:
  assumes "\<forall>row \<in> set g. length row = w"
  shows "length (all_cells g) = length g * w"
proof -
  have "map (\<lambda>y. length (g ! y)) [0 ..< length g] = map (\<lambda>y. w) [0 ..< length g]"
    using assms by (intro map_cong refl) simp
  then have "sum_list (map (\<lambda>y. length (g ! y)) [0 ..< length g]) =
             sum_list (map (\<lambda>y. w) [0 ..< length g])"
    by (rule arg_cong)
  also have "\<dots> = length g * w" by (simp add: sum_list_triv)
  finally show ?thesis
    by (simp add: all_cells_def length_concat comp_def)
qed

lemma in_grid_nonempty: "in_grid g c \<Longrightarrow> g \<noteq> []"
  by (auto simp: in_grid_def)

lemma explore_body_total:
  assumes sh: "same_shape s" and sub: "set te \<subseteq> set (all_cells (field s))"
    and lt: "i < length te" and dist: "distinct te"
  shows "\<exists>s1 te1. explore_body s te i = Inr (s1, te1) \<and> same_shape s1 \<and>
           field s1 = field s \<and> set te1 \<subseteq> set (all_cells (field s)) \<and> distinct te1"
proof -
  obtain cx cy where cxy: "te ! i = (cx, cy)" by (cases "te ! i")
  from lt sub have "te ! i \<in> set (all_cells (field s))" by (auto simp: subset_eq)
  then have cg: "in_grid (field s) (cx, cy)" by (simp add: mem_all_cells cxy)
  define t where "t = tile_at (field s) (cx, cy)"
  define v where "v = put (visible s) (cx, cy) t"
  define s1 where "s1 = s\<lparr>visible := v\<rparr>"
  have g: "grid_get (field s) cx cy = Inr t" and w: "grid_set (visible s) cx cy t = Inr v"
    using reveal_reads(1) [OF sh cg] reveal_reads(2) [OF sh cg, of t]
    by (simp_all add: t_def v_def)
  note u = explore_body_unfold [OF cxy g w, folded s1_def]
  have sh1: "same_shape s1" using sh by (simp add: same_shape_def s1_def v_def shape_put)
  have fne: "field s1 \<noteq> []" using in_grid_nonempty [OF cg] by (simp add: s1_def)
  have f1: "field s1 = field s" by (simp add: s1_def)
  show ?thesis
  proof (cases "t = ''x''")
    case True
    from lose_game_spec [OF sh1 fne] obtain v'
      where "lose_game s1 = Inr (s1\<lparr>running := False, visible := v'\<rparr>)"
        and "map length v' = map length (field s)"
      by (auto simp: f1)
    with True sub dist show ?thesis
      unfolding u by (auto simp: same_shape_def f1)
  next
    case False
    from count_unexplored_zero [OF sh1] obtain n where n: "count_unexplored_tiles s1 = Inr n"
      by blast
    show ?thesis
    proof (cases "n = 0")
      case True
      from win_game_spec [OF sh1 fne] obtain v'
        where "win_game s1 = Inr (s1\<lparr>running := False, won := True, visible := v'\<rparr>)"
          and "map length v' = map length (field s)"
        by (auto simp: f1)
      with True False n sub dist show ?thesis
        unfolding u by (auto simp: same_shape_def f1)
    next
      case n0: False
      have "set (append_new te (get_surrounding_tiles s cx cy)) \<subseteq> set (all_cells (field s))"
        using sub get_surrounding_tiles_subset [of s cx cy] by (simp add: set_append_new)
      with n0 False n sub dist sh1 f1 show ?thesis
        unfolding u by (auto simp: distinct_append_new)
    qed
  qed
qed

lemma explore_loop_total:
  "same_shape s \<Longrightarrow> set te \<subseteq> set (all_cells (field s)) \<Longrightarrow> distinct te \<Longrightarrow>
   \<exists>s' te'. explore_loop s te i = Inr (s', te') \<and> field s' = field s \<and>
             set te' \<subseteq> set (all_cells (field s)) \<and> distinct te'"
proof (induction s te i rule: explore_loop.induct)
  case (1 s te i)
  show ?case
  proof (cases "i < length te")
    case True
    from explore_body_total [OF "1.prems"(1,2) True "1.prems"(3)] obtain s1 te1
      where b: "explore_body s te i = Inr (s1, te1)" and sh1: "same_shape s1"
        and f1: "field s1 = field s" and sub1: "set te1 \<subseteq> set (all_cells (field s))"
        and d1: "distinct te1"
      by blast
    from "1.IH" [OF True b refl sh1] sub1 d1 f1 obtain s' te'
      where l: "explore_loop s1 te1 (i + 1) = Inr (s', te')" and "field s' = field s"
        and "set te' \<subseteq> set (all_cells (field s))" and "distinct te'"
      by auto
    moreover have "explore_loop s te i = Inr (s', te')"
      using True b l by (subst explore_loop.simps) simp
    ultimately show ?thesis by blast
  next
    case False
    then have "explore_loop s te i = Inr (s, te)" by (subst explore_loop.simps) simp
    with "1.prems" show ?thesis by blast
  qed
qed

text \<open>
  Claim C9. On a field of \<open>height\<close> rows of \<open>width\<close> cells, with a visible grid of the
  same rows, the loop of \<^verbatim>\<open>explore_tile\<close> started at a cell of the field returns, whatever
  the tiles are; the work list it ends with holds cells of the field, each once, so at
  most \<open>width * height\<close> of them, and every round has moved the index one step on.
\<close>

theorem cascade_terminates:
  assumes "same_shape s" and "length (field s) = height"
    and "\<forall>row \<in> set (field s). length row = width" and "in_grid (field s) (x, y)"
  shows "\<exists>s' te. explore_loop s [(x, y)] 0 = Inr (s', te) \<and> explore_tile s x y = Inr s' \<and>
           distinct te \<and> set te \<subseteq> set (all_cells (field s)) \<and> length te \<le> width * height"
proof -
  have "set [(x, y)] \<subseteq> set (all_cells (field s))" using assms(4) by (simp add: mem_all_cells)
  from explore_loop_total [OF assms(1) this, of 0] obtain s' te
    where l: "explore_loop s [(x, y)] 0 = Inr (s', te)"
      and sub: "set te \<subseteq> set (all_cells (field s))" and d: "distinct te"
    by auto
  have "length te = card (set te)" using d by (simp add: distinct_card)
  also have "\<dots> \<le> card (set (all_cells (field s)))" using sub by (simp add: card_mono)
  also have "\<dots> = length (all_cells (field s))" by (simp add: distinct_card distinct_all_cells)
  also have "\<dots> = height * width" using length_all_cells [OF assms(3)] assms(2) by simp
  finally have "length te \<le> width * height" by (simp add: mult.commute)
  with l sub d show ?thesis by (auto simp: explore_tile_def)
qed

theorem cascade_terminates_witness:
  "same_shape session0 \<and> length (field session0) = 3 \<and>
   map length (field session0) = [3, 3, 3] \<and> in_grid (field session0) (0, 0) \<and>
   (\<exists>s' te. explore_loop session0 [(0, 0)] 0 = Inr (s', te) \<and>
       explore_tile session0 0 0 = Inr s' \<and>
       distinct te \<and> set te \<subseteq> set (all_cells (field session0)) \<and> length te \<le> 3 * 3)"
proof -
  have h: "same_shape session0" "length (field session0) = 3"
    "\<forall>row \<in> set (field session0). length row = 3" "in_grid (field session0) (0, 0)"
    by code_simp+
  have r: "map length (field session0) = [3, 3, 3]" by code_simp
  from cascade_terminates [OF h] h r show ?thesis by - (intro conjI; assumption)
qed

section \<open>Mouse events\<close>

lemma field_ok_nonempty: "field_ok g \<Longrightarrow> g \<noteq> []"
  unfolding field_ok_def by (rule conjunct1)

lemma field_ok_rows:
  assumes "field_ok g" and "row \<in> set g"
  shows "length row = length (g ! 0)"
proof -
  from assms(1) have "\<forall>row \<in> set g. length row = length (g ! 0)"
    unfolding field_ok_def by (rule conjunct1 [OF conjunct2])
  then show ?thesis using assms(2) by (rule bspec)
qed

lemma field_ok_in_grid:
  assumes "field_ok g"
  shows "in_grid g (a, b) \<longleftrightarrow>
         0 \<le> a \<and> a < int (length (g ! 0)) \<and> 0 \<le> b \<and> b < int (length g)"
proof (cases "0 \<le> b \<and> b < int (length g)")
  case True
  then have "nat b < length g" by (simp add: nat_less_iff)
  then have "g ! nat b \<in> set g" by (rule nth_mem)
  with assms have "length (g ! nat b) = length (g ! 0)" by (rule field_ok_rows)
  then show ?thesis unfolding in_grid_def fst_conv snd_conv using True by auto
next
  case False
  then show ?thesis unfolding in_grid_def fst_conv snd_conv by auto
qed

lemma handle_mouse_over: "\<not> running s \<Longrightarrow> handle_mouse s x y b = Inr s"
  by (simp add: handle_mouse_def)

lemma handle_mouse_bounds:
  assumes "running s" and "field_ok (field s)"
  shows "handle_mouse s x y b =
     (if in_grid (field s) (x div 40, y div 40) then
        (if b = MOUSE_LEFT then
           (case grid_get (visible s) (x div 40) (y div 40) of
              Inl e \<Rightarrow> Inl e
            | Inr t \<Rightarrow>
                if t = '' '' then explore_tile (s\<lparr>clicks := clicks s + 1\<rparr>) (x div 40) (y div 40)
                else Inr s)
         else if b = MOUSE_RIGHT then toggle_flag s (x div 40) (y div 40)
         else Inr s)
      else Inr s)"
proof -
  from assms(2) have ne: "field s \<noteq> []" by (rule field_ok_nonempty)
  then have p: "py_index (field s) 0 = Inr (field s ! 0)"
    using py_index_in [of 0 "field s"] by simp
  show ?thesis
    unfolding handle_mouse_def Let_def field_ok_in_grid [OF assms(2)] p
    using assms(1) by simp
qed

lemma toggle_flag_spec:
  assumes sh: "same_shape s" and g: "in_grid (field s) (x, y)"
  shows "\<exists>v'. toggle_flag s x y = Inr (s\<lparr>visible := v'\<rparr>) \<and>
           map length v' = map length (field s) \<and>
           (\<forall>c. in_grid (field s) c \<longrightarrow>
              tile_at v' c =
                (if c = (x, y) \<and> tile_at (visible s) c = '' '' then ''f''
                 else if c = (x, y) \<and> tile_at (visible s) c = ''f'' then '' ''
                 else tile_at (visible s) c))"
proof -
  from sh g have gv: "in_grid (visible s) (x, y)"
    using in_grid_shape [of "visible s" "field s"] by (simp add: same_shape_def)
  have r: "grid_get (visible s) x y = Inr (tile_at (visible s) (x, y))"
    using gv by (rule grid_get_in)
  have w: "grid_set (visible s) x y t = Inr (put (visible s) (x, y) t)" for t
    using gv by (rule grid_set_in)
  have shv: "map length (visible s) = map length (field s)" using sh by (simp add: same_shape_def)
  consider (hidden) "tile_at (visible s) (x, y) = '' ''"
    | (flagged) "tile_at (visible s) (x, y) = ''f''"
    | (shown) "tile_at (visible s) (x, y) \<noteq> '' ''" "tile_at (visible s) (x, y) \<noteq> ''f''"
    by auto
  then show ?thesis
  proof cases
    case hidden
    have "toggle_flag s x y = Inr (s\<lparr>visible := put (visible s) (x, y) ''f''\<rparr>)"
      by (simp add: toggle_flag_def r w hidden)
    moreover have "tile_at (put (visible s) (x, y) ''f'') c =
        (if c = (x, y) \<and> tile_at (visible s) c = '' '' then ''f''
         else if c = (x, y) \<and> tile_at (visible s) c = ''f'' then '' ''
         else tile_at (visible s) c)" if "in_grid (field s) c" for c
      using reveal_tile [OF sh g that, of "''f''"] hidden by auto
    ultimately show ?thesis using shv by (auto simp: shape_put)
  next
    case flagged
    have "toggle_flag s x y = Inr (s\<lparr>visible := put (visible s) (x, y) '' ''\<rparr>)"
      by (simp add: toggle_flag_def r w flagged)
    moreover have "tile_at (put (visible s) (x, y) '' '') c =
        (if c = (x, y) \<and> tile_at (visible s) c = '' '' then ''f''
         else if c = (x, y) \<and> tile_at (visible s) c = ''f'' then '' ''
         else tile_at (visible s) c)" if "in_grid (field s) c" for c
      using reveal_tile [OF sh g that, of "'' ''"] flagged by auto
    ultimately show ?thesis using shv by (auto simp: shape_put)
  next
    case shown
    have "toggle_flag s x y = Inr s" by (simp add: toggle_flag_def r shown)
    then have "toggle_flag s x y = Inr (s\<lparr>visible := visible s\<rparr>)" by simp
    moreover have "tile_at (visible s) c =
        (if c = (x, y) \<and> tile_at (visible s) c = '' '' then ''f''
         else if c = (x, y) \<and> tile_at (visible s) c = ''f'' then '' ''
         else tile_at (visible s) c)" for c
      using shown by auto
    ultimately show ?thesis using shv by blast
  qed
qed


lemma session_okI:
  assumes "field_ok (field s)" and "same_shape s" and "consistent s"
    and "running s \<Longrightarrow> \<not> won s"
    and "\<And>c. running s \<Longrightarrow> in_grid (field s) c \<Longrightarrow> tile_at (field s) c = ''x'' \<Longrightarrow>
           tile_at (visible s) c \<noteq> ''x''"
  shows "session_ok s"
  unfolding session_ok_def using assms by (simp add: mem_all_cells)

lemma consistentI:
  assumes "\<And>c. in_grid (field s) c \<Longrightarrow>
     tile_at (visible s) c = '' '' \<or> tile_at (visible s) c = ''f'' \<or>
     tile_at (visible s) c = tile_at (field s) c"
  shows "consistent s"
  unfolding consistent_def using assms by (simp add: mem_all_cells)

lemma click_result:
  assumes ok: "session_ok s" and run: "running s"
    and g: "in_grid (field s) (x, y)" and hid: "tile_at (visible s) (x, y) = '' ''"
  shows "\<exists>s'. explore_tile s x y = Inr s' \<and> session_ok s' \<and> field s' = field s \<and>
           (\<forall>c. in_grid (field s) c \<longrightarrow> tile_at (visible s) c \<noteq> '' '' \<longrightarrow>
                tile_at (visible s) c \<noteq> ''f'' \<longrightarrow>
                tile_at (visible s') c = tile_at (visible s) c)"
proof (cases "tile_at (field s) (x, y) = ''x''")
  case True
  note S = click_state [OF ok run]
  from explore_tile_mine [OF S(1,2) g True] obtain v'
    where e: "explore_tile s x y = Inr (s\<lparr>running := False, visible := v'\<rparr>)"
      and shv: "map length v' = map length (field s)"
      and tv: "\<And>c. in_grid (field s) c \<Longrightarrow>
              tile_at v' c =
                (if c = (x, y) then ''x''
                 else if tile_at (field s) c = ''x'' \<and> tile_at (visible s) c \<noteq> ''f'' then ''x''
                 else tile_at (visible s) c)"
    by blast
  define s' where "s' = s\<lparr>running := False, visible := v'\<rparr>"
  have f: "field s' = field s" and v: "visible s' = v'" and r: "\<not> running s'"
    by (simp_all add: s'_def)
  have cons: "consistent s'"
  proof (rule consistentI)
    fix c assume "in_grid (field s') c"
    then have cg: "in_grid (field s) c" by (simp add: f)
    from tv [OF cg] consistentD [OF S(3) cg] True
    show "tile_at (visible s') c = '' '' \<or> tile_at (visible s') c = ''f'' \<or>
          tile_at (visible s') c = tile_at (field s') c"
      by (auto simp: f v)
  qed
  have ok': "session_ok s'"
    by (rule session_okI) (use S(1) shv cons r in \<open>simp_all add: f v same_shape_def\<close>)
  have keep: "tile_at (visible s') c = tile_at (visible s) c"
    if cg: "in_grid (field s) c" and "tile_at (visible s) c \<noteq> '' ''"
      and "tile_at (visible s) c \<noteq> ''f''" for c
    using tv [OF cg] consistentD [OF S(3) cg] that hid by (auto simp: v)
  from e ok' f keep show ?thesis unfolding s'_def by blast
next
  case False
  note S = click_state [OF ok run]
  from explore_tile_safe [OF S g False] obtain s' te
    where e: "explore_tile s x y = Inr s'"
      and inv: "cascade_inv (x, y) s' te (length te)" and rel: "cascade_rel (x, y) s s'"
    by blast
  note I = cascade_invD [OF inv]
  from rel have f: "field s' = field s" and rr: "\<not> won s' \<Longrightarrow> running s' = running s"
    by (simp_all add: cascade_rel_def)
  have nw: "\<not> won s'" if "running s'" using I(11) that by blast
  have ok': "session_ok s'"
  proof (rule session_okI)
    show "field_ok (field s')" by (rule I(1))
    show "same_shape s'" by (rule I(2))
    show "consistent s'" by (rule I(3))
    show "\<not> won s'" if "running s'" using that by (rule nw)
    show "tile_at (visible s') c \<noteq> ''x''"
      if r: "running s'" and cg: "in_grid (field s') c" and m: "tile_at (field s') c = ''x''" for c
    proof -
      from cg m have cg': "in_grid (field s) c" and m': "tile_at (field s) c = ''x''"
        by (simp_all add: f)
      from cascade_rel_mine [OF rel inv cg' m'] nw [OF r] session_okD(5) [OF ok run cg' m']
      show ?thesis by simp
    qed
  qed
  have keep: "tile_at (visible s') c = tile_at (visible s) c"
    if cg: "in_grid (field s) c" and n1: "tile_at (visible s) c \<noteq> '' ''"
      and n2: "tile_at (visible s) c \<noteq> ''f''" for c
  proof -
    from consistentD [OF S(3) cg] n1 n2 have sh: "tile_at (visible s) c = tile_at (field s) c"
      by simp
    show ?thesis
    proof (cases "tile_at (field s) c = ''x''")
      case True
      with session_okD(5) [OF ok run cg True] sh show ?thesis by simp
    next
      case nx: False
      show ?thesis
      proof (cases "c \<in> reach (field s) (x, y)")
        case True
        from cascade_end_reach [OF inv, of c] True sh show ?thesis by (simp add: f)
      next
        case nr: False
        from cascade_rel_other [OF rel cg nx nr] show ?thesis .
      qed
    qed
  qed
  from e ok' f keep show ?thesis by blast
qed

lemma session_ok_clicks: "session_ok (s\<lparr>clicks := n\<rparr>) = session_ok s"
  by (simp add: session_ok_def same_shape_def consistent_def)

lemma handle_mouse_step:
  assumes ok: "session_ok s"
  shows "\<exists>s'. handle_mouse s x y b = Inr s' \<and> session_ok s' \<and> field s' = field s \<and>
           (\<forall>c. in_grid (field s) c \<longrightarrow> tile_at (visible s) c \<noteq> '' '' \<longrightarrow>
                tile_at (visible s) c \<noteq> ''f'' \<longrightarrow>
                tile_at (visible s') c = tile_at (visible s) c)"
proof (cases "running s")
  case False
  with ok show ?thesis by (simp add: handle_mouse_over)
next
  case run: True
  note S = click_state [OF ok run]
  note hm = handle_mouse_bounds [OF run S(1), of x y b]
  define cx where "cx = x div 40"
  define cy where "cy = y div 40"
  show ?thesis
  proof (cases "in_grid (field s) (cx, cy)")
    case False
    with ok hm show ?thesis by (simp add: cx_def cy_def)
  next
    case g: True
    from S(2) g have gv: "in_grid (visible s) (cx, cy)"
      using in_grid_shape [of "visible s" "field s"] by (simp add: same_shape_def)
    have r: "grid_get (visible s) cx cy = Inr (tile_at (visible s) (cx, cy))"
      using gv by (rule grid_get_in)
    consider (left) "b = MOUSE_LEFT" "tile_at (visible s) (cx, cy) = '' ''"
      | (idle) "b = MOUSE_LEFT" "tile_at (visible s) (cx, cy) \<noteq> '' ''"
      | (right) "b = MOUSE_RIGHT" | (middle) "b = MOUSE_MIDDLE"
      by (cases b) auto
    then show ?thesis
    proof cases
      case left
      define s2 where "s2 = s\<lparr>clicks := clicks s + 1\<rparr>"
      have h: "handle_mouse s x y b = explore_tile s2 cx cy"
        using hm g r left by (simp add: cx_def cy_def s2_def)
      have ok2: "session_ok s2" using ok by (simp add: s2_def session_ok_clicks)
      have "running s2" "in_grid (field s2) (cx, cy)" "tile_at (visible s2) (cx, cy) = '' ''"
        using run g left by (simp_all add: s2_def)
      from click_result [OF ok2 this] show ?thesis
        unfolding h by (simp add: s2_def)
    next
      case idle
      with hm g r ok show ?thesis by (simp add: cx_def cy_def)
    next
      case right
      from toggle_flag_spec [OF S(2) g] obtain v'
        where tf: "toggle_flag s cx cy = Inr (s\<lparr>visible := v'\<rparr>)"
          and shv: "map length v' = map length (field s)"
          and tv: "\<And>c. in_grid (field s) c \<Longrightarrow>
              tile_at v' c =
                (if c = (cx, cy) \<and> tile_at (visible s) c = '' '' then ''f''
                 else if c = (cx, cy) \<and> tile_at (visible s) c = ''f'' then '' ''
                 else tile_at (visible s) c)"
        by blast
      have h: "handle_mouse s x y b = Inr (s\<lparr>visible := v'\<rparr>)"
        using hm g right tf by (simp add: cx_def cy_def)
      have cons: "consistent (s\<lparr>visible := v'\<rparr>)"
      proof (rule consistentI)
        fix c assume "in_grid (field (s\<lparr>visible := v'\<rparr>)) c"
        then have cg: "in_grid (field s) c" by simp
        from tv [OF cg] consistentD [OF S(3) cg]
        show "tile_at (visible (s\<lparr>visible := v'\<rparr>)) c = '' '' \<or>
              tile_at (visible (s\<lparr>visible := v'\<rparr>)) c = ''f'' \<or>
              tile_at (visible (s\<lparr>visible := v'\<rparr>)) c = tile_at (field (s\<lparr>visible := v'\<rparr>)) c"
          by auto
      qed
      have ok': "session_ok (s\<lparr>visible := v'\<rparr>)"
      proof (rule session_okI)
        show "field_ok (field (s\<lparr>visible := v'\<rparr>))" using S(1) by simp
        show "same_shape (s\<lparr>visible := v'\<rparr>)" using shv by (simp add: same_shape_def)
        show "consistent (s\<lparr>visible := v'\<rparr>)" by (rule cons)
        show "\<not> won (s\<lparr>visible := v'\<rparr>)" using S(4) by simp
        show "tile_at (visible (s\<lparr>visible := v'\<rparr>)) c \<noteq> ''x''"
          if "in_grid (field (s\<lparr>visible := v'\<rparr>)) c"
            and "tile_at (field (s\<lparr>visible := v'\<rparr>)) c = ''x''" for c
        proof -
          from that have cg: "in_grid (field s) c" and m: "tile_at (field s) c = ''x''"
            by simp_all
          from tv [OF cg] session_okD(5) [OF ok run cg m] show ?thesis by auto
        qed
      qed
      have "tile_at v' c = tile_at (visible s) c"
        if "in_grid (field s) c" "tile_at (visible s) c \<noteq> '' ''"
          "tile_at (visible s) c \<noteq> ''f''" for c
        using tv [OF that(1)] that(2,3) by simp
      with h ok' show ?thesis by simp
    next
      case middle
      with hm g ok show ?thesis by (simp add: cx_def cy_def)
    qed
  qed
qed

section \<open>Flags and the cascade\<close>

text \<open>
  Claim C8 says that a cascade never reveals a flagged cell and that only \<^verbatim>\<open>toggle_flag\<close>
  removes a flag. In the session of a row of four, with the second cell flagged, the click
  on the first cell reveals the second one: the cascade looks at no flag.
\<close>

theorem flag_lost_in_cascade:
  "init_game rev [Some 4, Some 1, Some 1] = Inr row_start \<and>
   handle_mouse row_start 50 10 MOUSE_RIGHT = Inr row_flagged \<and>
   handle_mouse row_flagged 10 10 MOUSE_LEFT = Inr row_won \<and>
   tile_at (visible row_flagged) (1, 0) = ''f'' \<and>
   tile_at (visible row_won) (1, 0) = ''0''"
proof -
  have "init_game rev [Some 4, Some 1, Some 1] = Inr row_start" by code_simp
  moreover have "handle_mouse row_start 50 10 MOUSE_RIGHT = Inr row_flagged" by code_simp
  moreover have "handle_mouse row_flagged 10 10 MOUSE_LEFT = Inr row_won" by code_simp
  moreover have "tile_at (visible row_flagged) (1, 0) = ''f''" by code_simp
  moreover have "tile_at (visible row_won) (1, 0) = ''0''" by code_simp
  ultimately show ?thesis by - (intro conjI; assumption)
qed

text \<open>
  C8, as the code has it: a left click on a flagged cell does nothing. After the click on
  a hidden cell of a running session, a cell that was flagged shows its tile if the cascade
  from the clicked cell gets to it (the clicked cell, and the neighbours of every \<^verbatim>\<open>"0"\<close>
  cell it gets to), and keeps its flag otherwise.
\<close>

theorem flagged_cell_after_click:
  assumes ok: "session_ok s" and run: "running s"
    and g: "in_grid (field s) (x, y)" and hid: "tile_at (visible s) (x, y) = '' ''"
    and cg: "in_grid (field s) c" and fl: "tile_at (visible s) c = ''f''"
  shows "handle_mouse s (40 * fst c) (40 * snd c) MOUSE_LEFT = Inr s \<and>
         (\<exists>s'. explore_tile s x y = Inr s' \<and>
            tile_at (visible s') c =
              (if c \<in> reach (field s) (x, y) then tile_at (field s) c else ''f''))"
proof
  note S = click_state [OF ok run]
  have d: "40 * fst c div 40 = fst c" "40 * snd c div 40 = snd c" by simp_all
  from S(2) cg have "in_grid (visible s) (fst c, snd c)"
    using in_grid_shape [of "visible s" "field s"] by (simp add: same_shape_def)
  then have "grid_get (visible s) (fst c) (snd c) = Inr (tile_at (visible s) (fst c, snd c))"
    by (rule grid_get_in)
  with cg fl show "handle_mouse s (40 * fst c) (40 * snd c) MOUSE_LEFT = Inr s"
    unfolding handle_mouse_bounds [OF run S(1)] d by simp
next
  note S = click_state [OF ok run]
  show "\<exists>s'. explore_tile s x y = Inr s' \<and>
            tile_at (visible s') c =
              (if c \<in> reach (field s) (x, y) then tile_at (field s) c else ''f'')"
  proof (cases "tile_at (field s) (x, y) = ''x''")
    case True
    from explore_tile_mine [OF S(1,2) g True] obtain v'
      where e: "explore_tile s x y = Inr (s\<lparr>running := False, visible := v'\<rparr>)"
        and tv: "\<And>c. in_grid (field s) c \<Longrightarrow>
              tile_at v' c =
                (if c = (x, y) then ''x''
                 else if tile_at (field s) c = ''x'' \<and> tile_at (visible s) c \<noteq> ''f'' then ''x''
                 else tile_at (visible s) c)"
      by blast
    from True have "reach (field s) (x, y) = {(x, y)}" using g by (intro reach_single) simp_all
    moreover from hid fl have "c \<noteq> (x, y)" by auto
    ultimately show ?thesis using e tv [OF cg] fl by simp
  next
    case False
    from explore_tile_safe [OF S g False] obtain s' te
      where e: "explore_tile s x y = Inr s'"
        and inv: "cascade_inv (x, y) s' te (length te)" and rel: "cascade_rel (x, y) s s'"
      by blast
    from rel have f: "field s' = field s" by (simp add: cascade_rel_def)
    show ?thesis
    proof (cases "c \<in> reach (field s) (x, y)")
      case True
      from cascade_end_reach [OF inv, of c] True e show ?thesis by (simp add: f)
    next
      case nr: False
      show ?thesis
      proof (cases "tile_at (field s) c = ''x''")
        case True
        from cascade_rel_mine [OF rel inv cg True] fl nr e show ?thesis by simp
      next
        case nx: False
        from cascade_rel_other [OF rel cg nx nr] fl nr e show ?thesis by simp
      qed
    qed
  qed
qed

theorem flagged_cell_after_click_witness:
  "session_ok row_flagged \<and> running row_flagged \<and> in_grid (field row_flagged) (0, 0) \<and>
   tile_at (visible row_flagged) (0, 0) = '' '' \<and> in_grid (field row_flagged) (1, 0) \<and>
   tile_at (visible row_flagged) (1, 0) = ''f'' \<and>
   (handle_mouse row_flagged (40 * fst (1 :: int, 0 :: int)) (40 * snd (1 :: int, 0 :: int))
      MOUSE_LEFT = Inr row_flagged \<and>
    (\<exists>s'. explore_tile row_flagged 0 0 = Inr s' \<and>
       tile_at (visible s') (1, 0) =
         (if (1, 0) \<in> reach (field row_flagged) (0, 0) then tile_at (field row_flagged) (1, 0)
          else ''f'')))"
proof -
  have h: "session_ok row_flagged" "running row_flagged" "in_grid (field row_flagged) (0, 0)"
    "tile_at (visible row_flagged) (0, 0) = '' ''" "in_grid (field row_flagged) (1, 0)"
    "tile_at (visible row_flagged) (1, 0) = ''f''"
    by code_simp+
  from flagged_cell_after_click [OF h, THEN conjunct1]
    flagged_cell_after_click [OF h, THEN conjunct2] h
  show ?thesis by - (intro conjI; assumption)
qed

section \<open>Field generation\<close>

subsection \<open>Rows\<close>

lemma chunk_rows_concat:
  "length xs = w * h \<Longrightarrow> concat (map (\<lambda>k. take w (drop (k * w) xs)) [0 ..< h]) = xs"
proof (induction h arbitrary: xs)
  case 0
  then show ?case by simp
next
  case (Suc h)
  have "map (\<lambda>k. take w (drop (k * w) xs)) [0 ..< Suc h] =
        take w xs # map (\<lambda>k. take w (drop (k * w) (drop w xs))) [0 ..< h]"
    by (simp add: upt_conv_Cons map_Suc_upt [symmetric] add.commute del: upt_Suc)
  moreover have "length (drop w xs) = w * h" using Suc.prems by simp
  ultimately show ?case using Suc.IH [of "drop w xs"] by simp
qed

lemma chunk_count:
  assumes "0 < w"
  shows "(w * h + w - 1) div w = (h :: nat)"
proof -
  obtain k where k: "w = Suc k" using assms by (cases w) auto
  have "w * h + w - 1 = k + h * w" by (simp add: k)
  moreover have "(k + h * w) div w = h + k div w" using assms by simp
  moreover have "k div w = 0" by (simp add: k)
  ultimately show ?thesis by simp
qed

lemma chunks_rect:
  assumes "0 < w" and "length xs = w * h"
  shows "chunks xs (int w) = Inr (map (\<lambda>k. take w (drop (k * w) xs)) [0 ..< h])"
  using assms chunk_count [of w h] by (simp add: chunks_def)

lemma chunk_row_length:
  assumes "length xs = w * h" and "k < h"
  shows "length (take w (drop (k * w) xs)) = w"
proof -
  from assms(2) have "Suc k \<le> h" by simp
  then have "Suc k * w \<le> h * w" by (rule mult_le_mono1)
  then have "w \<le> w * h - k * w" by (simp add: mult.commute)
  with assms(1) show ?thesis by simp
qed

lemma cells_tiles: "map (tile_at g) (all_cells g) = concat g"
proof -
  have "map (\<lambda>y. map (tile_at g) (map (\<lambda>x. (int x, int y)) [0 ..< length (g ! y)]))
          [0 ..< length g] = map (\<lambda>y. g ! y) [0 ..< length g]"
    by (intro map_cong refl) (simp add: tile_at_def comp_def map_nth)
  then show ?thesis
    by (simp add: all_cells_def map_concat comp_def map_nth)
qed

lemma count_mine_cells:
  "length (filter (\<lambda>c. tile_at g c = ''x'') (all_cells g)) =
   length (filter (\<lambda>t. t = ''x'') (concat g))"
proof -
  have "filter (\<lambda>t. t = ''x'') (map (tile_at g) (all_cells g)) =
        map (tile_at g) (filter (\<lambda>c. tile_at g c = ''x'') (all_cells g))"
    by (simp add: filter_map comp_def)
  then show ?thesis by (simp add: cells_tiles [symmetric] del: cells_tiles)
qed

lemma all_cells_shape: "map length g = map length g' \<Longrightarrow> all_cells g = all_cells g'"
proof -
  assume a: "map length g = map length g'"
  then have l: "length g = length g'" by (metis length_map)
  have "length (g ! i) = length (g' ! i)" if "i < length g" for i
    using a that l by (metis nth_map)
  then have "map (\<lambda>y. map (\<lambda>x. (int x, int y)) [0 ..< length (g ! y)]) [0 ..< length g] =
        map (\<lambda>y. map (\<lambda>x. (int x, int y)) [0 ..< length (g' ! y)]) [0 ..< length g]"
    by (intro map_cong refl) simp
  then show ?thesis unfolding all_cells_def l [symmetric] by (rule arg_cong)
qed

subsection \<open>Counting the mines around a cell\<close>

lemma count_inner:
  "fold (\<lambda>d m. if P d then (if Q d then m + 1 else m) else m) ds (m :: nat) =
   m + length (filter (\<lambda>d. P d \<and> Q d) ds)"
  by (induction ds arbitrary: m) auto

lemma count_outer:
  "fold (\<lambda>d m. if P d then m + k d else m) ds (m :: nat) =
   m + sum_list (map (\<lambda>d. if P d then k d else 0) ds)"
  by (induction ds arbitrary: m) auto

lemma count_surrounding_mines_sum:
  "count_surrounding_mines x y g =
     sum_list (map (\<lambda>d_y. if 0 \<le> y + d_y \<and> y + d_y < int (length g) then
         length (filter (\<lambda>d_x. (0 \<le> x + d_x \<and> x + d_x < int (length (g ! nat (y + d_y)))) \<and>
                    g ! nat (y + d_y) ! nat (x + d_x) = ''x'') [-1, 0, 1])
       else 0) [-1, 0, 1])"
  by (simp only: count_surrounding_mines_def count_inner count_outer add_0)

lemma filter_around:
  "length (filter P (around x y)) =
     sum_list (map (\<lambda>d_y. length (filter (\<lambda>d_x. P (x + d_x, y + d_y)) [-1, 0, 1])) [-1, 0, 1])"
proof -
  have "length (filter P (map (\<lambda>d_x. (x + d_x, y + d_y)) ds)) =
        length (filter (\<lambda>d_x. P (x + d_x, y + d_y)) ds)" for d_y and ds :: "int list"
    by (induction ds) auto
  then show ?thesis
    by (simp only: around_def filter_concat length_concat map_map comp_def)
qed

lemma count_as_filter:
  "count_surrounding_mines x y g =
     length (filter (\<lambda>c. in_grid g c \<and> tile_at g c = ''x'') (around x y))"
proof -
  have "(if 0 \<le> y + d_y \<and> y + d_y < int (length g) then
         length (filter (\<lambda>d_x. (0 \<le> x + d_x \<and> x + d_x < int (length (g ! nat (y + d_y)))) \<and>
                    g ! nat (y + d_y) ! nat (x + d_x) = ''x'') ds)
       else 0) =
        length (filter (\<lambda>d_x. in_grid g (x + d_x, y + d_y) \<and>
                    tile_at g (x + d_x, y + d_y) = ''x'') ds)" for d_y and ds :: "int list"
    by (induction ds) (auto simp: in_grid_def tile_at_def)
  then show ?thesis
    unfolding count_surrounding_mines_sum filter_around by simp
qed

lemma distinct_around: "distinct (around x y)"
  by (simp add: around_def)

lemma set_around: "set (around x y) = {c. \<bar>fst c - x\<bar> \<le> 1 \<and> \<bar>snd c - y\<bar> \<le> 1}"
proof (rule set_eqI)
  fix c :: coord
  obtain a b where c: "c = (a, b)" by (cases c)
  have "c \<in> set (around x y) \<longleftrightarrow>
        (a = x + -1 \<or> a = x + 0 \<or> a = x + 1) \<and> (b = y + -1 \<or> b = y + 0 \<or> b = y + 1)"
    unfolding around_def c by auto
  also have "\<dots> \<longleftrightarrow> (a - x = -1 \<or> a - x = 0 \<or> a - x = 1) \<and> (b - y = -1 \<or> b - y = 0 \<or> b - y = 1)"
    by auto
  also have "\<dots> \<longleftrightarrow> c \<in> {c. \<bar>fst c - x\<bar> \<le> 1 \<and> \<bar>snd c - y\<bar> \<le> 1}"
    unfolding abs_le_one_iff c by simp
  finally show "c \<in> set (around x y) \<longleftrightarrow> c \<in> {c. \<bar>fst c - x\<bar> \<le> 1 \<and> \<bar>snd c - y\<bar> \<le> 1}" .
qed

lemma count_eq_neighbour_mines:
  assumes "tile_at g (x, y) \<noteq> ''x''"
  shows "count_surrounding_mines x y g = neighbour_mines g (x, y)"
proof -
  have "count_surrounding_mines x y g =
        card (set (filter (\<lambda>c. in_grid g c \<and> tile_at g c = ''x'') (around x y)))"
    unfolding count_as_filter
    by (rule distinct_card [symmetric]) (rule distinct_filter, rule distinct_around)
  also have "set (filter (\<lambda>c. in_grid g c \<and> tile_at g c = ''x'') (around x y)) =
        set (filter (\<lambda>c'. adjacent (x, y) c' \<and> tile_at g c' = ''x'') (all_cells g))"
    using assms unfolding set_filter set_around set_all_cells adjacent_def by auto
  also have "card \<dots> = neighbour_mines g (x, y)"
    unfolding neighbour_mines_def
    by (rule distinct_card) (rule distinct_filter, rule distinct_all_cells)
  finally show ?thesis .
qed

lemma count_cong:
  assumes sh: "map length v = map length g"
    and m: "\<And>c. in_grid g c \<Longrightarrow> (tile_at v c = ''x'') = (tile_at g c = ''x'')"
  shows "count_surrounding_mines x y v = count_surrounding_mines x y g"
proof -
  have "(in_grid v c \<and> tile_at v c = ''x'') = (in_grid g c \<and> tile_at g c = ''x'')" for c
    using in_grid_shape [OF sh, of c] m [of c] by auto
  then show ?thesis unfolding count_as_filter by simp
qed

subsection \<open>The loop that writes the counts\<close>

lemma create_field_loop:
  fixes field0 :: grid
  defines "mine_map \<equiv> \<lambda>v. \<forall>c. in_grid field0 c \<longrightarrow>
              (tile_at v c = ''x'') = (tile_at field0 c = ''x'')"
  shows "\<exists>fld. for_each (enumerate_tiles field0)
                 (\<lambda>(y, x, tile) fld.
                    if \<not> tile = ''x''
                    then grid_set fld (int x) (int y)
                           (str (count_surrounding_mines (int x) (int y) fld))
                    else Inr fld)
                 field0 = Inr fld \<and>
           map length fld = map length field0 \<and> mine_map fld \<and>
           (\<forall>c. in_grid field0 c \<longrightarrow>
              tile_at fld c =
                (if c \<in> set (all_cells field0) \<and> tile_at field0 c \<noteq> ''x''
                 then str (count_surrounding_mines (fst c) (snd c) field0)
                 else tile_at field0 c))"
  unfolding enumerate_tiles_all_cells
proof (rule for_each_writes [where W = "\<lambda>c cur. tile_at field0 c \<noteq> ''x''"])
  fix c :: coord and v :: grid
  assume c: "c \<in> set (all_cells field0)" and sh: "map length v = map length field0"
    and mm: "mine_map v"
  from c have cg: "in_grid field0 c" by (simp add: mem_all_cells)
  have cnt: "count_surrounding_mines (fst c) (snd c) v =
             count_surrounding_mines (fst c) (snd c) field0"
    by (rule count_cong [OF sh]) (rule mm [unfolded mine_map_def, rule_format])
  have ix: "int (nat (fst c)) = fst c" "int (nat (snd c)) = snd c"
    using cell_index [OF cg] by simp_all
  show "(case (nat (snd c), nat (fst c), tile_at field0 c) of
          (y, x, tile) \<Rightarrow> \<lambda>fld.
            if \<not> tile = ''x''
            then grid_set fld (int x) (int y)
                   (str (count_surrounding_mines (int x) (int y) fld))
            else Inr fld) v =
        Inr (if tile_at field0 c \<noteq> ''x''
             then put v c (str (count_surrounding_mines (fst c) (snd c) field0)) else v)"
    unfolding prod.case ix grid_set_cell [OF sh c, unfolded ix] cnt by simp
  show "mine_map (put v c (str (count_surrounding_mines (fst c) (snd c) field0)))"
    if nx: "tile_at field0 c \<noteq> ''x''"
    unfolding mine_map_def
  proof (intro allI impI)
    fix c' assume g': "in_grid field0 c'"
    from sh cg g' have "in_grid v c" "in_grid v c'"
      using in_grid_shape [OF sh] by simp_all
    from tile_at_put [OF this]
    have tp: "tile_at (put v c (str (count_surrounding_mines (fst c) (snd c) field0))) c' =
              (if c' = c then str (count_surrounding_mines (fst c) (snd c) field0)
               else tile_at v c')" by simp
    have m': "(tile_at v c' = ''x'') = (tile_at field0 c' = ''x'')"
      by (rule mm [unfolded mine_map_def, rule_format, OF g'])
    show "(tile_at (put v c (str (count_surrounding_mines (fst c) (snd c) field0))) c' = ''x'') =
          (tile_at field0 c' = ''x'')"
      unfolding tp using m' nx
        str_not_special [of "count_surrounding_mines (fst c) (snd c) field0"]
      by (cases "c' = c") simp_all
  qed
next
  show "distinct (all_cells field0)" by (rule distinct_all_cells)
next
  fix c assume "c \<in> set (all_cells field0)"
  then show "in_grid field0 c" by (simp add: mem_all_cells)
next
  show "map length field0 = map length field0" by simp
next
  show "mine_map field0" by (simp add: mine_map_def)
qed

lemma create_field_spec:
  assumes w: "1 \<le> width" and h: "1 \<le> height" and n1: "0 \<le> n" and n2: "n \<le> width * height"
    and perm: "\<And>tiles. mset (shuffle tiles) = mset tiles"
  shows "\<exists>fld. create_field shuffle width height n =
                 Inr (fld, replicate (nat height) (replicate (nat width) '' '')) \<and>
           length fld = nat height \<and>
           (\<forall>row \<in> set fld. length row = nat width) \<and>
           length (filter (\<lambda>c. tile_at fld c = ''x'') (all_cells fld)) = nat n \<and>
           (\<forall>c \<in> set (all_cells fld).
              tile_at fld c \<noteq> ''x'' \<longrightarrow> tile_at fld c = str (neighbour_mines fld c))"
proof -
  define W where "W = nat width"
  define H where "H = nat height"
  define tiles0 where
    "tiles0 = replicate (nat n) ''x'' @ replicate (nat (width * height - n)) ''0''"
  define tiles where "tiles = shuffle tiles0"
  define field0 where "field0 = map (\<lambda>k. take W (drop (k * W) tiles)) [0 ..< H]"
  have Wpos: "0 < W" and wW: "width = int W" using w by (simp_all add: W_def)
  have "length tiles = length tiles0"
    unfolding tiles_def using perm [of tiles0] by (rule mset_eq_length)
  also have "\<dots> = nat n + nat (width * height - n)" by (simp add: tiles0_def)
  also have "\<dots> = nat (width * height)" using n1 n2 by simp
  also have "\<dots> = W * H" using w h by (simp add: W_def H_def nat_mult_distrib)
  finally have len: "length tiles = W * H" .
  have ch: "chunks tiles width = Inr field0"
    unfolding wW field0_def by (rule chunks_rect [OF Wpos len])
  have l0: "length field0 = H" by (simp add: field0_def)
  have r0: "length row = W" if "row \<in> set field0" for row
    using that chunk_row_length [OF len] by (auto simp add: field0_def)
  have c0: "concat field0 = tiles" unfolding field0_def by (rule chunk_rows_concat [OF len])
  from create_field_loop [of field0]
  obtain fld where
    loop: "for_each (enumerate_tiles field0)
                 (\<lambda>(y, x, tile) fld.
                    if \<not> tile = ''x''
                    then grid_set fld (int x) (int y)
                           (str (count_surrounding_mines (int x) (int y) fld))
                    else Inr fld)
                 field0 = Inr fld"
    and sh: "map length fld = map length field0"
    and mm: "\<And>c. in_grid field0 c \<Longrightarrow> (tile_at fld c = ''x'') = (tile_at field0 c = ''x'')"
    and wr: "\<And>c. in_grid field0 c \<Longrightarrow>
              tile_at fld c =
                (if c \<in> set (all_cells field0) \<and> tile_at field0 c \<noteq> ''x''
                 then str (count_surrounding_mines (fst c) (snd c) field0)
                 else tile_at field0 c)"
    by blast
  have cells: "all_cells fld = all_cells field0" by (rule all_cells_shape [OF sh])
  have res: "create_field shuffle width height n =
             Inr (fld, replicate (nat height) (replicate (nat width) '' ''))"
    unfolding create_field_def Let_def tiles0_def [symmetric] tiles_def [symmetric] ch sum.case loop
    by (rule refl)
  have lf: "length fld = nat height"
    using arg_cong [OF sh, of length] l0 by (simp add: H_def)
  have rf: "length row = nat width" if "row \<in> set fld" for row
  proof -
    from that have "length row \<in> set (map length fld)" by simp
    then have "length row \<in> set (map length field0)" by (simp only: sh)
    then show ?thesis using r0 by (auto simp add: W_def)
  qed
  have "filter (\<lambda>c. tile_at fld c = ''x'') (all_cells field0) =
        filter (\<lambda>c. tile_at field0 c = ''x'') (all_cells field0)"
    by (rule filter_cong [OF refl]) (simp add: mm mem_all_cells)
  then have "length (filter (\<lambda>c. tile_at fld c = ''x'') (all_cells fld)) =
             length (filter (\<lambda>t. t = ''x'') tiles)"
    unfolding cells by (simp only: count_mine_cells c0)
  also have "\<dots> = size (filter_mset (\<lambda>t. t = ''x'') (mset tiles))"
    by (simp only: mset_filter [symmetric] size_mset)
  also have "\<dots> = size (filter_mset (\<lambda>t. t = ''x'') (mset tiles0))"
    unfolding tiles_def by (simp only: perm)
  also have "\<dots> = length (filter (\<lambda>t. t = ''x'') tiles0)"
    by (simp only: mset_filter [symmetric] size_mset)
  also have "\<dots> = nat n" by (simp add: tiles0_def)
  finally have cnt: "length (filter (\<lambda>c. tile_at fld c = ''x'') (all_cells fld)) = nat n" .
  have num: "tile_at fld c = str (neighbour_mines fld c)"
    if c: "c \<in> set (all_cells fld)" and nx: "tile_at fld c \<noteq> ''x''" for c
  proof -
    from c have c0: "c \<in> set (all_cells field0)" by (simp only: cells)
    then have g: "in_grid field0 c" by (simp add: mem_all_cells)
    from nx mm [OF g] have nx0: "tile_at field0 c \<noteq> ''x''" by simp
    from wr [OF g] c0 nx0
    have "tile_at fld c = str (count_surrounding_mines (fst c) (snd c) field0)" by simp
    also have "count_surrounding_mines (fst c) (snd c) field0 =
               count_surrounding_mines (fst c) (snd c) fld"
      by (rule count_cong [OF sh, symmetric]) (rule mm)
    also have "\<dots> = neighbour_mines fld (fst c, snd c)"
      by (rule count_eq_neighbour_mines) (simp add: nx)
    finally show ?thesis by simp
  qed
  from res lf rf cnt num show ?thesis by blast
qed


section \<open>The generated field\<close>

text \<open>
  Claim C1. For a width and a height of at least one and a number of mines from one to
  \<open>width * height\<close>, and for every shuffle that only reorders the tiles, \<^verbatim>\<open>create_field\<close>
  returns a field of \<open>height\<close> rows of \<open>width\<close> cells with exactly that number of mine
  cells, in which every other cell holds the decimal string of the number of mines among
  the cells of the field next to it, and a visible grid of the same size with every cell
  hidden.
\<close>

theorem create_field_correct:
  assumes "1 \<le> width" and "1 \<le> height" and "1 \<le> mine_count"
    and "mine_count \<le> width * height"
    and "\<And>tiles. mset (shuffle tiles) = mset tiles"
  shows "\<exists>fld vis. create_field shuffle width height mine_count = Inr (fld, vis) \<and>
           length fld = nat height \<and>
           (\<forall>row \<in> set fld. length row = nat width) \<and>
           length (filter (\<lambda>c. tile_at fld c = ''x'') (all_cells fld)) = nat mine_count \<and>
           (\<forall>c \<in> set (all_cells fld).
              tile_at fld c \<noteq> ''x'' \<longrightarrow> tile_at fld c = str (neighbour_mines fld c)) \<and>
           vis = replicate (nat height) (replicate (nat width) '' '')"
proof -
  from assms(3) have "0 \<le> mine_count" by simp
  from create_field_spec [OF assms(1,2) this assms(4,5)] show ?thesis by blast
qed

theorem create_field_correct_witness:
  "(1 :: int) \<le> 3 \<and> (1 :: int) \<le> 1 \<and> (1 :: int) \<le> 3 * 3 \<and>
   (\<forall>tiles :: tile list. mset (rev tiles) = mset tiles) \<and>
   create_field rev 3 3 1 = Inr (field session0, visible session0) \<and>
   (\<exists>fld vis. create_field rev 3 3 1 = Inr (fld, vis) \<and>
      length fld = nat 3 \<and>
      (\<forall>row \<in> set fld. length row = nat 3) \<and>
      length (filter (\<lambda>c. tile_at fld c = ''x'') (all_cells fld)) = nat 1 \<and>
      (\<forall>c \<in> set (all_cells fld).
         tile_at fld c \<noteq> ''x'' \<longrightarrow> tile_at fld c = str (neighbour_mines fld c)) \<and>
      vis = replicate (nat 3) (replicate (nat 3) '' ''))"
proof -
  have h: "(1 :: int) \<le> 3" "(1 :: int) \<le> 1" "(1 :: int) \<le> 3 * 3" by simp_all
  have p: "mset (rev tiles) = mset tiles" for tiles :: "tile list" by simp
  have r: "create_field rev 3 3 1 = Inr (field session0, visible session0)" by code_simp
  from p have q: "\<forall>tiles :: tile list. mset (rev tiles) = mset tiles" by (rule allI)
  from create_field_correct [OF h(1) h(1) h(2) h(3) p] h q r
  show ?thesis by - (intro conjI; assumption)
qed

section \<open>The sessions of the game\<close>

lemma hidden_grid_tile:
  assumes "in_grid (replicate h (replicate w t)) c"
  shows "tile_at (replicate h (replicate w t)) c = t"
proof -
  from assms have b: "0 \<le> snd c" "snd c < int h" "0 \<le> fst c"
    and f: "fst c < int (length (replicate h (replicate w t) ! nat (snd c)))"
    unfolding in_grid_def by simp_all
  from b(1,2) have a: "nat (snd c) < h" by (simp add: nat_less_iff)
  with f have "fst c < int w" by simp
  with b(3) have "nat (fst c) < w" by (simp add: nat_less_iff)
  with a show ?thesis by (simp add: tile_at_def)
qed

lemma init_game_session_ok:
  assumes perm: "\<And>tiles. mset (shuffle tiles) = mset tiles"
    and init: "init_game shuffle inputs = Inr s"
  shows "session_ok s"
proof -
  from init_game_start [OF init] obtain width height where
    w: "0 < width" and h: "0 < height" and n1: "1 \<le> mines s"
    and n2: "mines s \<le> width * height" and run: "running s" and nw: "\<not> won s"
    and c: "create_field shuffle width height (mines s) = Inr (field s, visible s)"
    by blast
  have w1: "1 \<le> width" and h1: "1 \<le> height" and n0: "0 \<le> mines s"
    using w h n1 by simp_all
  from create_field_spec [OF w1 h1 n0 n2 perm] c
  have vis: "visible s = replicate (nat height) (replicate (nat width) '' '')"
    and len: "length (field s) = nat height"
    and rows: "\<forall>row \<in> set (field s). length row = nat width"
    and num: "\<forall>c \<in> set (all_cells (field s)).
               tile_at (field s) c \<noteq> ''x'' \<longrightarrow>
               tile_at (field s) c = str (neighbour_mines (field s) c)"
    by auto
  from len h have ne: "field s \<noteq> []" by auto
  then have "field s ! 0 \<in> set (field s)" by simp
  with rows have r0: "length (field s ! 0) = nat width" by (rule bspec)
  have fo: "field_ok (field s)"
    unfolding field_ok_def using ne rows r0 num by auto
  have "map length (field s) = map (\<lambda>_. nat width) (field s)"
    using rows by (intro map_cong refl) simp
  also have "\<dots> = replicate (nat height) (nat width)"
    by (simp add: map_replicate_const len)
  finally have sh: "same_shape s" by (simp add: same_shape_def vis)
  have hid: "tile_at (visible s) c = '' ''" if "in_grid (field s) c" for c
  proof -
    from that sh have "in_grid (visible s) c"
      using in_grid_shape [of "visible s" "field s" c] by (simp add: same_shape_def)
    then show ?thesis unfolding vis by (rule hidden_grid_tile)
  qed
  show ?thesis
  proof (rule session_okI)
    show "field_ok (field s)" by (rule fo)
    show "same_shape s" by (rule sh)
    show "consistent s" by (rule consistentI) (simp add: hid)
    show "\<not> won s" by (rule nw)
    show "tile_at (visible s) c \<noteq> ''x''" if "in_grid (field s) c" for c
      using hid [OF that] by simp
  qed
qed

lemma handle_mouse_result:
  assumes ok: "session_ok s" and hm: "handle_mouse s x y b = Inr s'"
  shows "session_ok s'" and "field s' = field s"
    and "\<And>c. in_grid (field s) c \<Longrightarrow> tile_at (visible s) c \<noteq> '' '' \<Longrightarrow>
           tile_at (visible s) c \<noteq> ''f'' \<Longrightarrow>
           tile_at (visible s') c = tile_at (visible s) c"
proof -
  from handle_mouse_step [OF ok, of x y b] obtain t where
    t: "handle_mouse s x y b = Inr t \<and> session_ok t \<and> field t = field s \<and>
        (\<forall>c. in_grid (field s) c \<longrightarrow> tile_at (visible s) c \<noteq> '' '' \<longrightarrow>
             tile_at (visible s) c \<noteq> ''f'' \<longrightarrow>
             tile_at (visible t) c = tile_at (visible s) c)" ..
  from t [THEN conjunct1] hm have e: "t = s'" by simp
  note r = t [unfolded e]
  show "session_ok s'" by (rule r [THEN conjunct2, THEN conjunct1])
  show "field s' = field s" by (rule r [THEN conjunct2, THEN conjunct2, THEN conjunct1])
  show "tile_at (visible s') c = tile_at (visible s) c"
    if "in_grid (field s) c" and "tile_at (visible s) c \<noteq> '' ''"
      and "tile_at (visible s) c \<noteq> ''f''" for c
    by (rule r [THEN conjunct2, THEN conjunct2, THEN conjunct2, rule_format, OF that])
qed

lemma reachable_session_ok: "reachable s \<Longrightarrow> session_ok s"
proof (induction rule: reachable.induct)
  case (start shuffle inputs s)
  then show ?case by (rule init_game_session_ok)
next
  case (mouse s x y button s')
  from mouse.IH mouse.hyps(2) show ?case by (rule handle_mouse_result(1))
qed

lemma leads_to_keeps:
  assumes "leads_to s s'" and "session_ok s"
  shows "session_ok s' \<and> field s' = field s \<and>
         (\<forall>c. in_grid (field s) c \<longrightarrow> tile_at (visible s) c \<noteq> '' '' \<longrightarrow>
              tile_at (visible s) c \<noteq> ''f'' \<longrightarrow>
              tile_at (visible s') c = tile_at (visible s) c)"
  using assms
proof (induction rule: leads_to.induct)
  case (here s)
  then show ?case by simp
next
  case (mouse s s' x y button s'')
  note ih = mouse.IH [OF mouse.prems]
  note ok' = ih [THEN conjunct1]
  note f = ih [THEN conjunct2, THEN conjunct1]
  note k = ih [THEN conjunct2, THEN conjunct2, rule_format]
  note r = handle_mouse_result [OF ok' mouse.hyps(2)]
  have "tile_at (visible s'') c = tile_at (visible s) c"
    if g: "in_grid (field s) c" and a: "tile_at (visible s) c \<noteq> '' ''"
      and b: "tile_at (visible s) c \<noteq> ''f''" for c
  proof -
    note e = k [OF g a b]
    from g have g': "in_grid (field s') c" by (simp only: f)
    from a b have "tile_at (visible s') c \<noteq> '' ''" "tile_at (visible s') c \<noteq> ''f''"
      by (simp_all only: e not_False_eq_True)
    from r(3) [OF g' this] show ?thesis by (simp only: e)
  qed
  then have "\<forall>c. in_grid (field s) c \<longrightarrow> tile_at (visible s) c \<noteq> '' '' \<longrightarrow>
              tile_at (visible s) c \<noteq> ''f'' \<longrightarrow>
              tile_at (visible s'') c = tile_at (visible s) c"
    by (intro allI impI)
  moreover have "field s'' = field s" using r(2) f by (rule trans)
  ultimately show ?case using r(1) by (intro conjI)
qed

lemma leads_to_total:
  assumes "leads_to s s'" and "session_ok s"
  shows "\<exists>s''. handle_mouse s' x y button = Inr s'' \<and> leads_to s s''"
proof -
  from leads_to_keeps [OF assms] have "session_ok s'" by simp
  from handle_mouse_step [OF this, of x y button] obtain s''
    where "handle_mouse s' x y button = Inr s''" by blast
  with assms(1) show ?thesis by (blast intro: leads_to.mouse)
qed

subsection \<open>Two clicks on the sample session\<close>

lemma click_session0: "handle_mouse session0 40 40 MOUSE_LEFT = Inr session1"
  by code_simp

lemma click_session1: "handle_mouse session1 0 0 MOUSE_LEFT = Inr session2"
  by code_simp

lemma reachable_session1: "reachable session1"
proof -
  have "mset (rev tiles) = mset tiles" for tiles :: "tile list" by simp
  then have "reachable session0" using init_session0 by (rule reachable.start)
  then show ?thesis using click_session0 by (rule reachable.mouse)
qed

lemma reachable_session2: "reachable session2"
  using reachable_session1 click_session1 by (rule reachable.mouse)

section \<open>The visible grid and the field\<close>

text \<open>
  Claim C10. In every session that \<^verbatim>\<open>init_game\<close> starts and mouse events lead to, so after
  any clicks, flag toggles and the handling of a win or a loss, the visible grid has the
  rows of the field, and each of its cells is hidden (\<^verbatim>\<open>" "\<close>), flagged (\<^verbatim>\<open>"f"\<close>) or
  shows exactly the tile of the field at its place.
\<close>

theorem visible_matches_field:
  assumes "reachable s"
  shows "map length (visible s) = map length (field s) \<and>
         (\<forall>c \<in> set (all_cells (visible s)).
            tile_at (visible s) c = '' '' \<or> tile_at (visible s) c = ''f'' \<or>
            tile_at (visible s) c = tile_at (field s) c)"
proof -
  from assms have ok: "session_ok s" by (rule reachable_session_ok)
  note d = session_okD [OF ok]
  from d(2) have sh: "map length (visible s) = map length (field s)"
    by (simp only: same_shape_def)
  have "all_cells (visible s) = all_cells (field s)" by (rule all_cells_shape [OF sh])
  with d(3) sh show ?thesis by (simp only: consistent_def simp_thms)
qed

theorem visible_matches_field_witness:
  "reachable session2 \<and> same_shape session2 \<and> consistent session2 \<and>
   tile_at (visible session2) (2, 2) = ''f'' \<and>
   tile_at (visible session2) (1, 1) = ''1''"
proof -
  note r = visible_matches_field [OF reachable_session2]
  from r have sh: "same_shape session2" by (simp only: same_shape_def)
  have a: "all_cells (visible session2) = all_cells (field session2)"
    by (rule all_cells_shape [OF r [THEN conjunct1]])
  have co: "consistent session2"
    unfolding consistent_def by (rule r [THEN conjunct2, unfolded a])
  have "tile_at (visible session2) (2, 2) = ''f''" "tile_at (visible session2) (1, 1) = ''1''"
    by code_simp+
  with reachable_session2 sh co show ?thesis by - (intro conjI; assumption)
qed

section \<open>Revealed cells\<close>

text \<open>
  Claim C7. A cell that a session of the game shows revealed, neither hidden nor flagged,
  shows the same tile after any further mouse events: clicks with their cascades, flag
  toggles, and the handling of a win or a loss that a click sets off. It is never hidden or
  flagged again. Every mouse event on such a session returns.
\<close>

theorem revealed_stays_revealed:
  assumes "reachable s" and "leads_to s s'" and "in_grid (visible s) c"
    and "tile_at (visible s) c \<noteq> '' ''" and "tile_at (visible s) c \<noteq> ''f''"
  shows "tile_at (visible s') c = tile_at (visible s) c \<and>
         tile_at (visible s') c \<noteq> '' '' \<and> tile_at (visible s') c \<noteq> ''f'' \<and>
         (\<exists>s''. handle_mouse s' x y button = Inr s'')"
proof -
  from assms(1) have ok: "session_ok s" by (rule reachable_session_ok)
  note d = session_okD [OF ok]
  from d(2) have sh: "map length (visible s) = map length (field s)"
    by (simp only: same_shape_def)
  from assms(3) have g: "in_grid (field s) c" by (simp only: in_grid_shape [OF sh])
  note k = leads_to_keeps [OF assms(2) ok]
  note e = k [THEN conjunct2, THEN conjunct2, rule_format, OF g assms(4,5)]
  from leads_to_total [OF assms(2) ok, of x y button]
  have "\<exists>s''. handle_mouse s' x y button = Inr s''" by (elim exE conjE) (rule exI)
  with e assms(4,5) show ?thesis by (simp only: simp_thms)
qed

theorem revealed_stays_revealed_witness:
  "reachable session1 \<and> leads_to session1 session2 \<and> in_grid (visible session1) (1, 1) \<and>
   tile_at (visible session1) (1, 1) \<noteq> '' '' \<and> tile_at (visible session1) (1, 1) \<noteq> ''f'' \<and>
   tile_at (visible session2) (1, 1) = tile_at (visible session1) (1, 1) \<and>
   tile_at (visible session2) (1, 1) \<noteq> '' '' \<and> tile_at (visible session2) (1, 1) \<noteq> ''f'' \<and>
   (\<exists>s''. handle_mouse session2 0 0 MOUSE_RIGHT = Inr s'')"
proof -
  have l: "leads_to session1 session2"
    using leads_to.here click_session1 by (rule leads_to.mouse)
  have h: "in_grid (visible session1) (1, 1)" "tile_at (visible session1) (1, 1) \<noteq> '' ''"
    "tile_at (visible session1) (1, 1) \<noteq> ''f''"
    by code_simp+
  note r = revealed_stays_revealed [OF reachable_session1 l h, of 0 0 MOUSE_RIGHT]
  from reachable_session1 l h r [THEN conjunct1] r [THEN conjunct2, THEN conjunct1]
    r [THEN conjunct2, THEN conjunct2, THEN conjunct1]
    r [THEN conjunct2, THEN conjunct2, THEN conjunct2]
  show ?thesis by - (intro conjI; assumption)
qed

end
